theory Spec2Isabelle
  imports Main "HOL-Library.Multiset"
begin

section \<open>The duperrormsg analyzer: duplicate error messages in Go call expressions\<close>

text \<open>
  The development embeds \<^verbatim>\<open>duperrormsg/duperrormsg.go\<close>: the recognizer
  \<^verbatim>\<open>getErrorConstructName\<close>, the extractor \<^verbatim>\<open>extractErrorMessage\<close>,
  the normalizer \<^verbatim>\<open>extractStringLiteral\<close> and the pass \<^verbatim>\<open>run\<close>.
  Go strings are byte sequences and are modelled as \<open>string\<close> (a list of 8-bit
  characters, UTF-8 for text outside ASCII). A run-time panic of the Go code (an index out of range) is the value
  \<open>None\<close> of an option type.
\<close>

subsection \<open>Library functions of package strings\<close>

abbreviation dquote :: char where "dquote \<equiv> CHR 0x22"
abbreviation backquote :: char where "backquote \<equiv> CHR 0x60"
abbreviation backslash :: char where "backslash \<equiv> CHR 0x5C"
abbreviation percent :: char where "percent \<equiv> CHR 0x25"
abbreviation newline :: char where "newline \<equiv> CHR 0x0A"

text \<open>\<^verbatim>\<open>strings.HasPrefix\<close>, \<^verbatim>\<open>strings.HasSuffix\<close> and
  \<^verbatim>\<open>strings.Contains\<close> compare bytes.\<close>

definition HasPrefix :: "string \<Rightarrow> string \<Rightarrow> bool" where
  "HasPrefix s p = (take (length p) s = p)"

definition HasSuffix :: "string \<Rightarrow> string \<Rightarrow> bool" where
  "HasSuffix s p = (length p \<le> length s \<and> drop (length s - length p) s = p)"

fun Contains :: "string \<Rightarrow> string \<Rightarrow> bool" where
  "Contains [] sub = (sub = [])"
| "Contains (c # cs) sub = (HasPrefix (c # cs) sub \<or> Contains cs sub)"

text \<open>\<^verbatim>\<open>strings.ToLower\<close>, as its source has it. A string of ASCII bytes only (every
  byte below \<^verbatim>\<open>utf8.RuneSelf\<close>, which is \<open>0x80\<close>) has its upper-case letters \<open>A\<close> to
  \<open>Z\<close> moved to lower case, byte by byte. Any other string is mapped rune by rune with
  \<^verbatim>\<open>unicode.ToLower\<close>; Go maps, for instance, U+0130 (the capital I with a dot above)
  to the ASCII letter \<open>i\<close>. The Unicode case tables are no part of the repository: the
  function of this second case is the parameter \<open>L\<close> of the recognizer and of everything
  that depends on it, and the properties hold for every \<open>L\<close>.\<close>

type_synonym lowering = "string \<Rightarrow> string"

definition is_ascii :: "char \<Rightarrow> bool" where
  "is_ascii c = ((of_char c :: nat) < 128)"

definition is_upper :: "char \<Rightarrow> bool" where
  "is_upper c = (65 \<le> (of_char c :: nat) \<and> (of_char c :: nat) \<le> 90)"

definition is_lower :: "char \<Rightarrow> bool" where
  "is_lower c = (97 \<le> (of_char c :: nat) \<and> (of_char c :: nat) \<le> 122)"

definition is_digit :: "char \<Rightarrow> bool" where
  "is_digit c = (48 \<le> (of_char c :: nat) \<and> (of_char c :: nat) \<le> 57)"

definition lower_char :: "char \<Rightarrow> char" where
  "lower_char c = (if is_upper c then char_of ((of_char c :: nat) + 32) else c)"

definition ToLower :: "lowering \<Rightarrow> string \<Rightarrow> string" where
  "ToLower L s = (if list_all is_ascii s then map lower_char s else L s)"

text \<open>\<^verbatim>\<open>strings.Trim(s, cutset)\<close> removes every leading and every trailing
  character of \<open>s\<close> that occurs in \<open>cutset\<close>.\<close>

definition Trim :: "string \<Rightarrow> string \<Rightarrow> string" where
  "Trim s cutset =
     rev (dropWhile (\<lambda>c. c \<in> set cutset) (rev (dropWhile (\<lambda>c. c \<in> set cutset) s)))"

subsection \<open>The syntax tree\<close>

text \<open>The kinds of a basic literal (\<^verbatim>\<open>token.INT\<close> ... \<^verbatim>\<open>token.STRING\<close>), and the
  expression nodes the analyzer inspects. \<open>OtherExpr\<close> stands for every node type the
  code never looks into. The \<open>Value\<close> of a \<open>BasicLit\<close> is the raw token text, with
  its quotes.\<close>

datatype token_kind = tok_INT | tok_FLOAT | tok_IMAG | tok_CHAR | tok_STRING

datatype expr =
    Ident string
  | BasicLit token_kind string
  | SelectorExpr expr string
  | CallExpr expr "expr list"
  | OtherExpr

type_synonym token_Pos = int

text \<open>A call expression as the inspector hands it to the callback: its callee, its
  arguments and the value of its \<^verbatim>\<open>Pos()\<close> method.\<close>

record call_node =
  Fun :: expr
  Args :: "expr list"
  node_Pos :: token_Pos

record Position =
  Filename :: string
  Offset :: int
  Line :: int
  Column :: int

record ErrorInfo =
  Pos :: call_node
  Construct :: string

subsection \<open>The normalizer: extractStringLiteral\<close>

text \<open>The regular expression \<^verbatim>\<open>%[a-zA-Z0-9\.\-\+#]*[a-zA-Z]\<close>: a percent sign, a
  greedy run of characters of the class, and a letter. At a percent sign the greedy run
  takes every class character that follows and then gives characters back until the
  last one taken is a letter, so the match ends at the last letter of the run;
  a run without a letter does not match.\<close>

definition is_letter :: "char \<Rightarrow> bool" where
  "is_letter c = (is_lower c \<or> is_upper c)"

definition is_class_char :: "char \<Rightarrow> bool" where
  "is_class_char c =
     (is_letter c \<or> is_digit c \<or> c = CHR ''.'' \<or> c = CHR ''-'' \<or> c = CHR ''+'' \<or> c = CHR ''#'')"

text \<open>The number of characters after the percent sign that the match takes
  (\<open>0\<close>: no match at this percent sign).\<close>

definition verb_len :: "string \<Rightarrow> nat" where
  "verb_len s = length (dropWhile (\<lambda>c. \<not> is_letter c) (rev (takeWhile is_class_char s)))"

text \<open>\<^verbatim>\<open>formatSpecifier.ReplaceAllString(raw, repl)\<close>: the matches are found from
  left to right, they do not overlap, and each is replaced by \<open>repl\<close> (a replacement
  without a dollar sign, as \<^verbatim>\<open>%x\<close> is, stands for itself). A class character is never a
  percent sign, so behind a percent sign that starts no match the next candidate is the
  next percent sign.\<close>

function ReplaceAllString :: "string \<Rightarrow> string \<Rightarrow> string" where
  "ReplaceAllString [] repl = []"
| "ReplaceAllString (c # cs) repl =
     (if c = percent \<and> 0 < verb_len cs
      then repl @ ReplaceAllString (drop (verb_len cs) cs) repl
      else c # ReplaceAllString cs repl)"
  by pat_completeness auto
termination
  by (relation "measure (\<lambda>(s, repl). length s)") auto

fun extractStringLiteral :: "expr \<Rightarrow> string" where
  "extractStringLiteral (BasicLit k v) =
     (if k = tok_STRING
      then (let raw = Trim v [backquote, dquote] in ReplaceAllString raw ''%x'')
      else [])"
| "extractStringLiteral e = []"

subsection \<open>The recognizer: getErrorConstructName\<close>

definition logFuncSuffixes :: "string list" where
  "logFuncSuffixes =
     [[], ''f'', ''ln'',
      ''Error'', ''Errorf'', ''Errorln'',
      ''Fatal'', ''Fatalf'', ''Fatalln'',
      ''Panic'', ''Panicf'', ''Panicln'',
      ''Warning'', ''Warningf'', ''Warningln'',
      ''Info'', ''Infof'', ''Infoln'']"

text \<open>The loop over \<open>logFuncSuffixes\<close> returns at the first suffix that fits; it
  returns the same value for each, so it is a test for some suffix fitting.\<close>

definition log_func :: "string \<Rightarrow> bool" where
  "log_func sel =
     list_ex (\<lambda>suffix. sel = suffix \<or> sel = ''Log'' @ suffix \<or> sel = ''Print'' @ suffix)
       logFuncSuffixes"

definition log_package :: "lowering \<Rightarrow> string \<Rightarrow> bool" where
  "log_package L pkg = (pkg = ''log'' \<or> Contains (ToLower L pkg) ''log'')"

definition error_constructor :: "lowering \<Rightarrow> string \<Rightarrow> bool" where
  "error_constructor L sel =
     (HasSuffix sel ''Error'' \<or> HasPrefix sel ''New'' \<or> Contains sel ''Error''
      \<or> Contains (ToLower L sel) ''fail'')"

definition chained_log_method :: "string \<Rightarrow> bool" where
  "chained_log_method sel =
     (sel = ''Logf'' \<or> sel = ''LogErrorf'' \<or> sel = ''LogError'' \<or> sel = ''Log'')"

text \<open>The callee decides, in the order of the source: a selector on a call with one of
  the four log method names; a selector on an identifier, tested for \<^verbatim>\<open>errors.New\<close>,
  \<^verbatim>\<open>fmt.Errorf\<close>, the logging functions and the naming convention, in this order; a
  bare identifier. A selector that fits none of its tests reaches the test for a bare
  identifier, which it fails, and the result is the empty string.\<close>

fun construct_of :: "lowering \<Rightarrow> expr \<Rightarrow> string" where
  "construct_of L (SelectorExpr (CallExpr f as) sel) =
     (if chained_log_method sel then sel else [])"
| "construct_of L (SelectorExpr (Ident pkg) sel) =
     (if pkg = ''errors'' \<and> sel = ''New'' then ''errors.New''
      else if pkg = ''fmt'' \<and> sel = ''Errorf'' then ''fmt.Errorf''
      else if log_package L pkg \<and> log_func sel then pkg
      else if error_constructor L sel then sel
      else [])"
| "construct_of L (Ident name) =
     (if HasPrefix name ''New''
         \<and> (Contains name ''Error'' \<or> Contains name ''Err'' \<or> Contains name ''Fail'')
      then name else [])"
| "construct_of L e = []"

definition getErrorConstructName :: "lowering \<Rightarrow> call_node \<Rightarrow> string" where
  "getErrorConstructName L call = construct_of L (Fun call)"

subsection \<open>The extractor: extractErrorMessage\<close>

text \<open>Indexing a slice panics out of range.\<close>

definition index :: "'a list \<Rightarrow> nat \<Rightarrow> 'a option" where
  "index xs i = (if i < length xs then Some (xs ! i) else None)"

fun is_string_lit :: "expr \<Rightarrow> bool" where
  "is_string_lit (BasicLit k v) = (k = tok_STRING)"
| "is_string_lit e = False"

text \<open>The default branch of the switch: the first argument when it is a string literal,
  else the first string literal among the arguments; the inner \<open>None\<close> is
  \<^verbatim>\<open>msgArg == nil\<close>.\<close>

definition default_msgArg :: "expr list \<Rightarrow> expr option option" where
  "default_msgArg args =
     (if 0 < length args
      then (case index args 0 of
              None \<Rightarrow> None
            | Some a \<Rightarrow> if is_string_lit a then Some (Some a) else Some (find is_string_lit args))
      else Some None)"

text \<open>The tail of the function, from \<^verbatim>\<open>msg := extractStringLiteral(msgArg)\<close> on.\<close>

definition message_of :: "string \<Rightarrow> expr \<Rightarrow> string \<times> string" where
  "message_of construct msgArg =
     (let msg = extractStringLiteral msgArg in if msg = [] then ([], []) else (construct, msg))"

definition extractErrorMessage :: "lowering \<Rightarrow> call_node \<Rightarrow> (string \<times> string) option" where
  "extractErrorMessage L call =
     (let construct = getErrorConstructName L call in
      if construct = [] then Some ([], [])
      else if length (Args call) = 0 then Some ([], [])
      else if construct = ''errors.New'' then
        (if length (Args call) \<noteq> 1 then Some ([], [])
         else map_option (message_of construct) (index (Args call) 0))
      else if construct = ''fmt.Errorf'' then
        map_option (message_of construct) (index (Args call) 0)
      else if construct \<in> set [''log'', ''logger'', ''Log'', ''Logf'', ''LogError'', ''LogErrorf''] then
        map_option (message_of construct) (index (Args call) 0)
      else (case default_msgArg (Args call) of
              None \<Rightarrow> None
            | Some None \<Rightarrow> Some ([], [])
            | Some (Some lit) \<Rightarrow> Some (message_of construct lit)))"

subsection \<open>The pass: run\<close>

text \<open>A call of \<^verbatim>\<open>pass.Reportf(pos, format, args...)\<close>: the position, the format
  string and the arguments. The verb \<^verbatim>\<open>%q\<close> prints a string argument as a quoted Go
  string, \<^verbatim>\<open>%v\<close> prints a position as \<^verbatim>\<open>file:line:column\<close>.\<close>

datatype fmt_arg = StringArg string | PositionArg Position

record Diagnostic =
  diag_Pos :: token_Pos
  Format :: string
  FmtArgs :: "fmt_arg list"

type_synonym error_map = "string \<rightharpoonup> ErrorInfo list"

text \<open>The callback of \<^verbatim>\<open>inspector.Preorder\<close>; reading an absent key of a Go map
  gives the nil slice.\<close>

definition lookup :: "error_map \<Rightarrow> string \<Rightarrow> ErrorInfo list" where
  "lookup errorMap msg = (case errorMap msg of None \<Rightarrow> [] | Some locations \<Rightarrow> locations)"

definition visit :: "lowering \<Rightarrow> error_map \<Rightarrow> call_node \<Rightarrow> error_map option" where
  "visit L errorMap node =
     (case extractErrorMessage L node of
        None \<Rightarrow> None
      | Some (construct, msg) \<Rightarrow>
          if construct = [] \<or> msg = [] then Some errorMap
          else Some (errorMap(msg \<mapsto> lookup errorMap msg @ [\<lparr>Pos = node, Construct = construct\<rparr>])))"

fun Preorder :: "lowering \<Rightarrow> error_map \<Rightarrow> call_node list \<Rightarrow> error_map option" where
  "Preorder L errorMap [] = Some errorMap"
| "Preorder L errorMap (node # nodes) =
     (case visit L errorMap node of None \<Rightarrow> None | Some errorMap' \<Rightarrow> Preorder L errorMap' nodes)"

definition primary :: "string \<Rightarrow> ErrorInfo \<Rightarrow> Diagnostic" where
  "primary msg firstLoc =
     \<lparr>diag_Pos = node_Pos (Pos firstLoc),
      Format = ''duplicate error message %q used in multiple locations'',
      FmtArgs = [StringArg msg]\<rparr>"

definition secondary :: "(token_Pos \<Rightarrow> Position) \<Rightarrow> string \<Rightarrow> ErrorInfo \<Rightarrow> ErrorInfo \<Rightarrow> Diagnostic" where
  "secondary fset msg firstLoc loc =
     \<lparr>diag_Pos = node_Pos (Pos loc),
      Format = ''duplicate error message %q also used at %v'',
      FmtArgs = [StringArg msg, PositionArg (fset (node_Pos (Pos firstLoc)))]\<rparr>"

text \<open>The body of the loop over the map, for one entry.\<close>

definition report_entry ::
    "(token_Pos \<Rightarrow> Position) \<Rightarrow> string \<Rightarrow> ErrorInfo list \<Rightarrow> Diagnostic list option" where
  "report_entry fset msg locations =
     (if 1 < length locations
      then (case index locations 0 of
              None \<Rightarrow> None
            | Some firstLoc \<Rightarrow>
                map_option (\<lambda>ds. primary msg firstLoc # ds)
                  (those (map (\<lambda>i. map_option (secondary fset msg firstLoc) (index locations i))
                            [1 ..< length locations])))
      else Some [])"

text \<open>\<^verbatim>\<open>for msg, locations := range errorMap\<close> visits every entry of the map once, in
  an order that the Go language leaves unspecified. The order of one execution is the
  list \<open>order\<close> of the keys; \<open>range_order\<close> says that it is an order of the map.\<close>

definition range_order :: "error_map \<Rightarrow> string list \<Rightarrow> bool" where
  "range_order errorMap order = (distinct order \<and> set order = dom errorMap)"

fun report_all ::
    "(token_Pos \<Rightarrow> Position) \<Rightarrow> error_map \<Rightarrow> string list \<Rightarrow> Diagnostic list option" where
  "report_all fset errorMap [] = Some []"
| "report_all fset errorMap (msg # order) =
     (case report_entry fset msg (lookup errorMap msg) of
        None \<Rightarrow> None
      | Some ds \<Rightarrow> map_option (\<lambda>ds'. ds @ ds') (report_all fset errorMap order))"

text \<open>The pass. \<open>nodes\<close> are the call expressions of the files in the order in which
  \<^verbatim>\<open>inspector.Preorder\<close> hands them to the callback, \<open>fset\<close> is
  \<^verbatim>\<open>pass.Fset.Position\<close>, and the result is the list of the calls of
  \<^verbatim>\<open>pass.Reportf\<close> in the order in which they are made.\<close>

definition run ::
    "lowering \<Rightarrow> (token_Pos \<Rightarrow> Position) \<Rightarrow> string list \<Rightarrow> call_node list \<Rightarrow> Diagnostic list option" where
  "run L fset order nodes =
     (case Preorder L Map.empty nodes of
        None \<Rightarrow> None
      | Some errorMap \<Rightarrow> report_all fset errorMap order)"

text \<open>The map that the traversal builds, where it does not panic.\<close>

definition collected :: "lowering \<Rightarrow> call_node list \<Rightarrow> error_map" where
  "collected L nodes = (case Preorder L Map.empty nodes of None \<Rightarrow> Map.empty | Some errorMap \<Rightarrow> errorMap)"

subsection \<open>Notions for stating the properties\<close>

text \<open>A call is recorded when the callback appends it to the map; its key is the
  normalized message; \<open>info_of\<close> is the entry that is appended.\<close>

definition recorded :: "lowering \<Rightarrow> call_node \<Rightarrow> bool" where
  "recorded L node =
     (case extractErrorMessage L node of
        None \<Rightarrow> False
      | Some (construct, msg) \<Rightarrow> \<not> (construct = [] \<or> msg = []))"

definition key_of :: "lowering \<Rightarrow> call_node \<Rightarrow> string" where
  "key_of L node = (case extractErrorMessage L node of None \<Rightarrow> [] | Some (construct, msg) \<Rightarrow> msg)"

definition info_of :: "lowering \<Rightarrow> call_node \<Rightarrow> ErrorInfo" where
  "info_of L node =
     \<lparr>Pos = node,
      Construct = (case extractErrorMessage L node of None \<Rightarrow> [] | Some (construct, msg) \<Rightarrow> construct)\<rparr>"

text \<open>The recorded calls with a given key, in the order of the traversal.\<close>

definition occurrences :: "lowering \<Rightarrow> call_node list \<Rightarrow> string \<Rightarrow> ErrorInfo list" where
  "occurrences L nodes msg = map (info_of L) (filter (\<lambda>node. recorded L node \<and> key_of L node = msg) nodes)"

definition occurrence_count :: "lowering \<Rightarrow> call_node list \<Rightarrow> string \<Rightarrow> nat" where
  "occurrence_count L nodes msg = length (filter (\<lambda>node. recorded L node \<and> key_of L node = msg) nodes)"

text \<open>The diagnostics of one group: none for fewer than two occurrences; else the
  primary one for the first occurrence and a secondary one for each later occurrence.\<close>

definition group_diagnostics ::
    "(token_Pos \<Rightarrow> Position) \<Rightarrow> string \<Rightarrow> ErrorInfo list \<Rightarrow> Diagnostic list" where
  "group_diagnostics fset msg locations =
     (case locations of
        firstLoc # second # rest \<Rightarrow>
          primary msg firstLoc # map (secondary fset msg firstLoc) (second # rest)
      | _ \<Rightarrow> [])"

text \<open>The entries that pass the test \<^verbatim>\<open>len(locations) > 1\<close> of the reporting loop,
  in the order of the iteration.\<close>

definition reported_groups :: "error_map \<Rightarrow> string list \<Rightarrow> (string \<times> ErrorInfo list) list" where
  "reported_groups errorMap order =
     filter (\<lambda>(msg, locations). 1 < length locations)
       (map (\<lambda>msg. (msg, lookup errorMap msg)) order)"

text \<open>The format specifier as the specification words it: a percent sign, zero or more
  characters out of digits, \<open>.\<close>, \<open>-\<close>, \<open>+\<close> and \<open>#\<close>, and one letter. This
  function follows the specification, not the code, and serves the comparison of the
  two.\<close>

definition is_flag_char :: "char \<Rightarrow> bool" where
  "is_flag_char c =
     (is_digit c \<or> c = CHR ''.'' \<or> c = CHR ''-'' \<or> c = CHR ''+'' \<or> c = CHR ''#'')"

function spec_ReplaceAllString :: "string \<Rightarrow> string \<Rightarrow> string" where
  "spec_ReplaceAllString [] repl = []"
| "spec_ReplaceAllString (c # cs) repl =
     (if c = percent
      then (case dropWhile is_flag_char cs of
              [] \<Rightarrow> c # spec_ReplaceAllString cs repl
            | l # rest \<Rightarrow>
                if is_letter l then repl @ spec_ReplaceAllString rest repl
                else c # spec_ReplaceAllString cs repl)
      else c # spec_ReplaceAllString cs repl)"
  by pat_completeness auto
termination
proof (relation "measure (\<lambda>(s, repl). length s)")
  fix c :: char and cs repl l rest
  assume "dropWhile is_flag_char cs = l # rest"
  then have "length (l # rest) \<le> length cs"
    using length_dropWhile_le [of is_flag_char cs] by simp
  then show "((rest, repl), c # cs, repl) \<in> measure (\<lambda>(s, repl). length s)"
    by simp
qed auto

subsection \<open>Interpreted string literals of Go\<close>

text \<open>The repository has no decoder of string literals; what a literal denotes is the Go
  language specification (sections String literals and Rune literals). In an interpreted
  literal a backslash starts an escape sequence: one of the letters of \<open>simple_escapes\<close>,
  \<^verbatim>\<open>x\<close> and two hexadecimal digits or three octal digits (a byte, at most 255),
  \<^verbatim>\<open>u\<close> and four or \<^verbatim>\<open>U\<close> and eight hexadecimal digits (a code point that is no
  surrogate half and at most \<open>0x10FFFF\<close>, in UTF-8). \<open>escape_value\<close> maps the text behind
  the backslash to the bytes it denotes, and to \<open>None\<close> if it is no escape sequence.\<close>

definition is_hex :: "char \<Rightarrow> bool" where
  "is_hex c = (is_digit c \<or> c \<in> set ''abcdefABCDEF'')"

definition is_octal :: "char \<Rightarrow> bool" where
  "is_octal c = (48 \<le> (of_char c :: nat) \<and> (of_char c :: nat) \<le> 55)"

definition digit_value :: "char \<Rightarrow> nat" where
  "digit_value c =
     (if is_digit c then of_char c - 48 else if is_lower c then of_char c - 87 else of_char c - 55)"

definition digits_value :: "nat \<Rightarrow> string \<Rightarrow> nat" where
  "digits_value base ds = foldl (\<lambda>n c. base * n + digit_value c) 0 ds"

definition utf8 :: "nat \<Rightarrow> string" where
  "utf8 cp =
     (if cp < 0x80 then [char_of cp]
      else if cp < 0x800 then [char_of (0xC0 + cp div 64), char_of (0x80 + cp mod 64)]
      else if cp < 0x10000 then
        [char_of (0xE0 + cp div 4096), char_of (0x80 + cp div 64 mod 64), char_of (0x80 + cp mod 64)]
      else
        [char_of (0xF0 + cp div 262144), char_of (0x80 + cp div 4096 mod 64),
         char_of (0x80 + cp div 64 mod 64), char_of (0x80 + cp mod 64)])"

definition code_point :: "nat \<Rightarrow> string option" where
  "code_point cp =
     (if cp \<le> 0x10FFFF \<and> \<not> (0xD800 \<le> cp \<and> cp \<le> 0xDFFF) then Some (utf8 cp) else None)"

definition simple_escapes :: "(char \<times> char) list" where
  "simple_escapes =
     [(CHR ''a'', CHR 0x07), (CHR ''b'', CHR 0x08), (CHR ''f'', CHR 0x0C),
      (CHR ''n'', CHR 0x0A), (CHR ''r'', CHR 0x0D), (CHR ''t'', CHR 0x09),
      (CHR ''v'', CHR 0x0B), (backslash, backslash), (dquote, dquote)]"

definition escape_value :: "string \<Rightarrow> string option" where
  "escape_value body =
     (case body of
        [] \<Rightarrow> None
      | c # digits \<Rightarrow>
          if digits = [] then map_option (\<lambda>b. [b]) (map_of simple_escapes c)
          else if c = CHR ''x'' \<and> length digits = 2 \<and> list_all is_hex digits
            then Some [char_of (digits_value 16 digits)]
          else if c = CHR ''u'' \<and> length digits = 4 \<and> list_all is_hex digits
            then code_point (digits_value 16 digits)
          else if c = CHR ''U'' \<and> length digits = 8 \<and> list_all is_hex digits
            then code_point (digits_value 16 digits)
          else if length body = 3 \<and> list_all is_octal body \<and> digits_value 8 body \<le> 255
            then Some [char_of (digits_value 8 body)]
          else None)"

text \<open>The content of an interpreted literal, piece by piece: a character that stands for
  itself, or an escape sequence given by the text behind its backslash and its value.
  \<open>source_text\<close> is the content as written between the double quotes, \<open>runtime_value\<close>
  the string that the literal denotes, which is also the content of the raw literal with the
  same value. A piece is valid when its character can stand unescaped in both literals
  (in the interpreted one no backslash and no double quote, in the raw one no backquote), or
  when its escape sequence is one of the language with that value.\<close>

datatype piece = Plain char | Escape string string

fun piece_source :: "piece \<Rightarrow> string" where
  "piece_source (Plain c) = [c]"
| "piece_source (Escape body val) = backslash # body"

fun piece_value :: "piece \<Rightarrow> string" where
  "piece_value (Plain c) = [c]"
| "piece_value (Escape body val) = val"

definition source_text :: "piece list \<Rightarrow> string" where
  "source_text ps = concat (map piece_source ps)"

definition runtime_value :: "piece list \<Rightarrow> string" where
  "runtime_value ps = concat (map piece_value ps)"

fun valid_piece :: "piece \<Rightarrow> bool" where
  "valid_piece (Plain c) = (c \<noteq> backslash \<and> c \<noteq> dquote \<and> c \<noteq> backquote)"
| "valid_piece (Escape body val) = (escape_value body = Some val)"

fun is_escape :: "piece \<Rightarrow> bool" where
  "is_escape (Plain c) = False"
| "is_escape (Escape body val) = True"

text \<open>Notions of the proofs: characters that are neither delimiters nor a percent sign
  nor a backslash; escape sequences that denote a backslash and hold no second one (the
  only ones that keep the number of backslashes); the length of the text of an escape
  sequence.\<close>

definition harmless :: "char \<Rightarrow> bool" where
  "harmless c = (c \<noteq> percent \<and> c \<noteq> backslash \<and> c \<noteq> dquote \<and> c \<noteq> backquote)"

fun backslash_piece :: "piece \<Rightarrow> bool" where
  "backslash_piece (Plain c) = True"
| "backslash_piece (Escape body val) = (val = [backslash] \<and> backslash \<notin> set body)"

fun tame :: "piece \<Rightarrow> bool" where
  "tame (Plain c) = (c \<noteq> backslash \<and> c \<noteq> dquote \<and> c \<noteq> backquote)"
| "tame (Escape body val) = (val = [backslash] \<and> body \<noteq> [] \<and> list_all harmless body)"

fun body_length :: "piece \<Rightarrow> nat" where
  "body_length (Plain c) = 0"
| "body_length (Escape body val) = length body"

text \<open>A string literal token in double quotes, and one in backquotes.\<close>

definition quoted :: "string \<Rightarrow> expr" where
  "quoted content = BasicLit tok_STRING (dquote # content @ [dquote])"

definition raw_quoted :: "string \<Rightarrow> expr" where
  "raw_quoted content = BasicLit tok_STRING (backquote # content @ [backquote])"

text \<open>Example inputs: a call \<^verbatim>\<open>errors.New("content")\<close> at a position, and a file set
  that puts position \<open>p\<close> on line \<open>p\<close> of \<^verbatim>\<open>a.go\<close>.\<close>

definition errors_New :: "string \<Rightarrow> token_Pos \<Rightarrow> call_node" where
  "errors_New content p =
     \<lparr>Fun = SelectorExpr (Ident ''errors'') ''New'', Args = [quoted content], node_Pos = p\<rparr>"

definition line_of :: "token_Pos \<Rightarrow> Position" where
  "line_of p = \<lparr>Filename = ''a.go'', Offset = p, Line = p, Column = 1\<rparr>"

text \<open>A lowering for the examples. It has the value of Go's \<^verbatim>\<open>strings.ToLower\<close> at the one
  name with a letter outside ASCII that the examples use: \<^verbatim>\<open>Fa\<close>, U+0130, \<^verbatim>\<open>l\<close>, where
  U+0130 is the two bytes \<open>C4 B0\<close> in UTF-8. On ASCII names \<open>ToLower\<close> does not call it.\<close>

definition sample_lower :: lowering where
  "sample_lower s = (if s = ''Fa'' @ [CHR 0xC4, CHR 0xB0] @ ''l'' then ''fail'' else s)"

text \<open>An example content with escape sequences of each kind:
  \<^verbatim>\<open>ok \x41\n%d\x5c\u00e9\101\<close>.\<close>

definition sample_pieces :: "piece list" where
  "sample_pieces =
     [Plain (CHR ''o''), Plain (CHR ''k''), Plain (CHR '' ''),
      Escape ''x41'' ''A'', Escape ''n'' [newline],
      Plain percent, Plain (CHR ''d''),
      Escape ''x5c'' [backslash], Escape ''u00e9'' [CHR 0xC3, CHR 0xA9],
      Escape ''101'' ''A'']"

section \<open>Properties\<close>

subsection \<open>Auxiliary facts\<close>

lemma index_0_Cons: "index (x # xs) 0 = Some x"
  by (simp add: index_def)

lemma index_Some: "i < length xs \<Longrightarrow> index xs i = Some (xs ! i)"
  by (simp add: index_def)

lemma default_msgArg_total: "default_msgArg args \<noteq> None"
  by (cases args) (simp_all add: default_msgArg_def index_def)

lemma extractErrorMessage_total: "extractErrorMessage L call \<noteq> None"
proof (cases "Args call")
  case Nil
  then show ?thesis by (simp add: extractErrorMessage_def Let_def)
next
  case (Cons a as)
  then show ?thesis
    using default_msgArg_total [of "a # as"]
    by (auto simp add: extractErrorMessage_def Let_def index_def split: option.splits)
qed

lemma visit_eq:
  "visit L errorMap node =
     Some (if recorded L node
           then errorMap(key_of L node \<mapsto> lookup errorMap (key_of L node) @ [info_of L node])
           else errorMap)"
proof (cases "extractErrorMessage L node")
  case None
  then show ?thesis using extractErrorMessage_total [of L node] by simp
next
  case (Some r)
  then show ?thesis
    by (cases r) (auto simp add: visit_def recorded_def key_of_def info_of_def)
qed

lemma occurrences_Nil: "occurrences L [] msg = []"
  by (simp add: occurrences_def)

lemma occurrences_Cons:
  "occurrences L (node # nodes) msg =
     (if recorded L node \<and> key_of L node = msg then info_of L node # occurrences L nodes msg
      else occurrences L nodes msg)"
  by (simp add: occurrences_def)

lemma Preorder_eq:
  "Preorder L errorMap nodes =
     Some (\<lambda>msg. if occurrences L nodes msg = [] then errorMap msg
                  else Some (lookup errorMap msg @ occurrences L nodes msg))"
proof (induction nodes arbitrary: errorMap)
  case Nil
  then show ?case by (simp add: occurrences_Nil)
next
  case (Cons node nodes)
  show ?case
    by (simp add: visit_eq Cons.IH occurrences_Cons lookup_def fun_eq_iff)
qed

lemma lookup_collected: "lookup (collected L nodes) msg = occurrences L nodes msg"
  by (simp add: collected_def Preorder_eq lookup_def)

lemma dom_collected: "dom (collected L nodes) = {msg. occurrences L nodes msg \<noteq> []}"
  by (auto simp add: collected_def Preorder_eq dom_def)

lemma those_map_Some: "those (map (\<lambda>x. Some (f x)) xs) = Some (map f xs)"
  by (induction xs) simp_all

lemma map_nth_tl: "map (\<lambda>i. xs ! i) [1 ..< length xs] = tl xs"
proof (cases xs)
  case Nil
  then show ?thesis by simp
next
  case (Cons y ys)
  have "[1 ..< length (y # ys)] = map Suc [0 ..< length ys]"
    by (simp add: map_Suc_upt del: upt_Suc)
  then have "map (\<lambda>i. (y # ys) ! i) [1 ..< length (y # ys)] = map (\<lambda>i. ys ! i) [0 ..< length ys]"
    by (simp add: comp_def del: upt_Suc)
  then show ?thesis using Cons by (simp add: map_nth)
qed

lemma secondaries_eq:
  "those (map (\<lambda>i. map_option f (index locations i)) [1 ..< length locations])
     = Some (map f (tl locations))"
proof -
  have "map (\<lambda>i. map_option f (index locations i)) [1 ..< length locations]
          = map (\<lambda>x. Some (f x)) (map (\<lambda>i. locations ! i) [1 ..< length locations])"
    by (simp add: index_def)
  then show ?thesis
    by (simp only: map_nth_tl those_map_Some)
qed

lemma report_entry_eq:
  "report_entry fset msg locations = Some (group_diagnostics fset msg locations)"
proof (cases "1 < length locations")
  case False
  then show ?thesis
    by (cases locations) (auto simp add: report_entry_def group_diagnostics_def split: list.splits)
next
  case True
  then obtain firstLoc second rest where locs: "locations = firstLoc # second # rest"
    by (cases locations; cases "tl locations") auto
  have first: "index locations 0 = Some firstLoc"
    by (simp add: locs index_0_Cons)
  have "report_entry fset msg locations
          = Some (primary msg firstLoc # map (secondary fset msg firstLoc) (tl locations))"
    unfolding report_entry_def secondaries_eq first using True by simp
  then show ?thesis
    by (simp add: locs group_diagnostics_def)
qed

lemma report_all_eq:
  "report_all fset errorMap order
     = Some (concat (map (\<lambda>msg. group_diagnostics fset msg (lookup errorMap msg)) order))"
  by (induction order) (simp_all add: report_entry_eq)

lemma Preorder_collected: "Preorder L Map.empty nodes = Some (collected L nodes)"
  by (simp add: collected_def Preorder_eq)

lemma run_eq:
  "run L fset order nodes
     = Some (concat (map (\<lambda>msg. group_diagnostics fset msg (occurrences L nodes msg)) order))"
  by (simp add: run_def Preorder_collected report_all_eq lookup_collected)

lemma Pos_info_of: "Pos (info_of L node) = node"
  by (simp add: info_of_def)

lemma Pos_occurrences:
  "Pos ` set (occurrences L nodes msg) = {node \<in> set nodes. recorded L node \<and> key_of L node = msg}"
  by (auto simp add: occurrences_def image_image Pos_info_of)

lemma length_occurrences: "length (occurrences L nodes msg) = occurrence_count L nodes msg"
  by (simp add: occurrences_def occurrence_count_def)

lemma occurrence_count_pos:
  "node \<in> set nodes \<Longrightarrow> recorded L node \<Longrightarrow> 0 < occurrence_count L nodes (key_of L node)"
  by (auto simp add: occurrence_count_def filter_empty_conv)

lemma range_order_collected:
  "range_order (collected L nodes) order \<longleftrightarrow>
     distinct order \<and> set order = {msg. 0 < occurrence_count L nodes msg}"
  by (simp add: range_order_def dom_collected length_occurrences [symmetric])

lemma set_reported_groups:
  "set (reported_groups (collected L nodes) order)
     = {(msg, occurrences L nodes msg) | msg. msg \<in> set order \<and> 1 < occurrence_count L nodes msg}"
  by (auto simp add: reported_groups_def lookup_collected length_occurrences)

lemma same_group_iff:
  assumes "range_order (collected L nodes) order"
      and "a \<in> set nodes" and "recorded L a" and "b \<in> set nodes" and "recorded L b"
  shows "(\<exists>(msg, locations) \<in> set (reported_groups (collected L nodes) order).
            a \<in> Pos ` set locations \<and> b \<in> Pos ` set locations)
         \<longleftrightarrow> key_of L a = key_of L b \<and> 2 \<le> occurrence_count L nodes (key_of L a)"
proof
  assume "\<exists>(msg, locations) \<in> set (reported_groups (collected L nodes) order).
            a \<in> Pos ` set locations \<and> b \<in> Pos ` set locations"
  then obtain msg where "1 < occurrence_count L nodes msg"
      and "a \<in> Pos ` set (occurrences L nodes msg)" and "b \<in> Pos ` set (occurrences L nodes msg)"
    by (auto simp add: set_reported_groups)
  then show "key_of L a = key_of L b \<and> 2 \<le> occurrence_count L nodes (key_of L a)"
    by (auto simp add: Pos_occurrences)
next
  assume r: "key_of L a = key_of L b \<and> 2 \<le> occurrence_count L nodes (key_of L a)"
  define msg where "msg = key_of L a"
  have kb: "key_of L b = msg" and ka: "key_of L a = msg"
    using r by (simp_all add: msg_def)
  have "2 \<le> occurrence_count L nodes msg"
    using r unfolding msg_def by (rule conjunct2)
  then have cnt: "1 < occurrence_count L nodes msg"
    by arith
  then have "0 < occurrence_count L nodes msg"
    by arith
  then have "msg \<in> set order"
    using assms(1) by (simp add: range_order_collected)
  with cnt have "(msg, occurrences L nodes msg) \<in> set (reported_groups (collected L nodes) order)"
    by (simp add: set_reported_groups)
  moreover have "a \<in> Pos ` set (occurrences L nodes msg)"
    using assms(2,3) ka by (simp add: Pos_occurrences)
  moreover have "b \<in> Pos ` set (occurrences L nodes msg)"
    using assms(4,5) kb by (simp add: Pos_occurrences)
  ultimately show "\<exists>(msg, locations) \<in> set (reported_groups (collected L nodes) order).
            a \<in> Pos ` set locations \<and> b \<in> Pos ` set locations"
    by blast
qed

lemma group_diagnostics_key:
  "d \<in> set (group_diagnostics fset msg locations) \<Longrightarrow>
     1 < length locations \<and> set (FmtArgs d) \<inter> range StringArg = {StringArg msg}"
  by (auto simp add: group_diagnostics_def primary_def secondary_def split: list.splits)

lemma run_diagnostic_key:
  assumes "run L fset order nodes = Some ds" and "d \<in> set ds" and "StringArg msg \<in> set (FmtArgs d)"
  shows "msg \<in> set order \<and> 1 < occurrence_count L nodes msg"
proof -
  from assms(1,2) obtain msg' where m: "msg' \<in> set order"
      and d: "d \<in> set (group_diagnostics fset msg' (occurrences L nodes msg'))"
    by (auto simp add: run_eq)
  from group_diagnostics_key [OF d] assms(3) have "msg = msg'" by auto
  with m group_diagnostics_key [OF d] show ?thesis
    by (simp add: length_occurrences)
qed

lemma run_reported_groups:
  "run L fset order nodes
     = Some (concat (map (\<lambda>(msg, locations). group_diagnostics fset msg locations)
                       (reported_groups (collected L nodes) order)))"
proof -
  have "concat (map (\<lambda>(msg, locations). group_diagnostics fset msg locations)
                       (reported_groups errorMap order))
        = concat (map (\<lambda>msg. group_diagnostics fset msg (lookup errorMap msg)) order)" for errorMap
    by (induction order)
       (auto simp add: reported_groups_def group_diagnostics_def split: list.splits)
  then show ?thesis by (simp add: run_eq lookup_collected)
qed

lemma class_not_percent: "is_class_char c \<Longrightarrow> c \<noteq> percent"
  by (auto simp add: is_class_char_def is_letter_def is_lower_def is_upper_def is_digit_def)

lemma class_not_backslash: "is_class_char c \<Longrightarrow> c \<noteq> backslash"
  by (auto simp add: is_class_char_def is_letter_def is_lower_def is_upper_def is_digit_def)

lemma letter_class: "is_letter c \<Longrightarrow> is_class_char c"
  by (simp add: is_class_char_def)

lemma verb_len_le_run: "verb_len s \<le> length (takeWhile is_class_char s)"
  using length_dropWhile_le [of "\<lambda>c. \<not> is_letter c" "rev (takeWhile is_class_char s)"]
  by (simp add: verb_len_def)

lemma verb_len_le: "verb_len s \<le> length s"
  using verb_len_le_run [of s] length_takeWhile_le [of is_class_char s] by arith

lemma verb_len_no_letter:
  "\<not> list_ex is_letter (takeWhile is_class_char s) \<Longrightarrow> verb_len s = 0"
  by (simp add: verb_len_def list_ex_iff)

lemma verb_len_last_letter:
  assumes "list_all is_class_char flags" and "is_letter l"
      and "\<not> list_ex is_letter (takeWhile is_class_char rest)"
  shows "verb_len (flags @ l # rest) = Suc (length flags)"
proof -
  have "takeWhile is_class_char (flags @ l # rest) = flags @ l # takeWhile is_class_char rest"
    using assms(1,2) by (simp add: list_all_iff letter_class)
  moreover have "dropWhile (\<lambda>c. \<not> is_letter c) (rev (takeWhile is_class_char rest) @ l # rev flags)
                   = l # rev flags"
  proof -
    have "dropWhile (\<lambda>c. \<not> is_letter c) (rev (takeWhile is_class_char rest) @ l # rev flags)
            = dropWhile (\<lambda>c. \<not> is_letter c) (l # rev flags)"
      using assms(3) by (intro dropWhile_append2) (simp add: list_ex_iff)
    then show ?thesis using assms(2) by simp
  qed
  ultimately show ?thesis by (simp add: verb_len_def)
qed

lemma ReplaceAllString_no_percent:
  "percent \<notin> set pre \<Longrightarrow> ReplaceAllString (pre @ s) repl = pre @ ReplaceAllString s repl"
  by (induction pre) auto

lemma count_take_run:
  assumes "n \<le> length (takeWhile is_class_char s)"
  shows "count_list (take n s) backslash = 0"
proof -
  have "take n (takeWhile is_class_char s @ dropWhile is_class_char s)
          = take n (takeWhile is_class_char s)"
    using assms by (simp del: takeWhile_dropWhile_id)
  then have "take n s = take n (takeWhile is_class_char s)"
    by simp
  then have "set (take n s) \<subseteq> set (takeWhile is_class_char s)"
    by (simp add: set_take_subset)
  then show ?thesis
    using class_not_backslash by (auto simp add: count_list_0_iff dest!: subsetD set_takeWhileD)
qed

lemma count_ReplaceAllString:
  "backslash \<notin> set repl \<Longrightarrow>
     count_list (ReplaceAllString s repl) backslash = count_list s backslash"
proof (induction s repl rule: ReplaceAllString.induct)
  case (1 repl)
  then show ?case by simp
next
  case (2 c cs repl)
  show ?case
  proof (cases "c = percent \<and> 0 < verb_len cs")
    case True
    have "count_list cs backslash
            = count_list (take (verb_len cs) cs) backslash + count_list (drop (verb_len cs) cs) backslash"
      by (metis append_take_drop_id count_list_append)
    then have "count_list (drop (verb_len cs) cs) backslash = count_list cs backslash"
      by (simp add: count_take_run [OF verb_len_le_run])
    with True 2 show ?thesis by (simp add: count_list_0_iff)
  next
    case False
    with 2 show ?thesis by auto
  qed
qed

lemma count_dropWhile:
  "\<not> P x \<Longrightarrow> count_list (dropWhile P xs) x = count_list xs x"
  by (induction xs) auto

lemma count_Trim:
  "backslash \<notin> set cutset \<Longrightarrow> count_list (Trim s cutset) backslash = count_list s backslash"
  by (simp add: Trim_def count_dropWhile)

lemma count_extractStringLiteral:
  "count_list (extractStringLiteral (BasicLit tok_STRING v)) backslash = count_list v backslash"
  by (simp add: count_ReplaceAllString count_Trim)

lemma extract_errors_New:
  "extractErrorMessage L (errors_New content p) = Some (message_of ''errors.New'' (quoted content))"
  by (simp add: errors_New_def extractErrorMessage_def getErrorConstructName_def index_def)

lemma key_a: "extractStringLiteral (quoted ''a'') = ''a''"
  by (simp add: quoted_def Trim_def)

lemma key_b: "extractStringLiteral (quoted ''b'') = ''b''"
  by (simp add: quoted_def Trim_def)

lemma recorded_a: "recorded L (errors_New ''a'' p)" "key_of L (errors_New ''a'' p) = ''a''"
  by (simp_all add: recorded_def key_of_def extract_errors_New message_of_def key_a)

lemma recorded_b: "recorded L (errors_New ''b'' p)" "key_of L (errors_New ''b'' p) = ''b''"
  by (simp_all add: recorded_def key_of_def extract_errors_New message_of_def key_b)

lemma filter_group_diagnostics:
  "filter (\<lambda>d. StringArg msg \<in> set (FmtArgs d)) (group_diagnostics fset msg' locations)
     = (if msg' = msg then group_diagnostics fset msg locations else [])"
  by (auto simp add: group_diagnostics_def primary_def secondary_def split: list.splits)

lemma concat_single_key:
  "distinct order \<Longrightarrow>
     concat (map (\<lambda>msg'. if msg' = msg then xs else []) order) = (if msg \<in> set order then xs else [])"
  by (induction order) auto

lemma filter_run_key:
  assumes "distinct order"
  shows "filter (\<lambda>d. StringArg msg \<in> set (FmtArgs d))
           (concat (map (\<lambda>msg. group_diagnostics fset msg (occurrences L nodes msg)) order))
         = (if msg \<in> set order then group_diagnostics fset msg (occurrences L nodes msg) else [])"
proof -
  have "filter (\<lambda>d. StringArg msg \<in> set (FmtArgs d))
           (concat (map (\<lambda>msg. group_diagnostics fset msg (occurrences L nodes msg)) order))
        = concat (map (\<lambda>msg'. if msg' = msg then group_diagnostics fset msg (occurrences L nodes msg) else []) order)"
    by (simp add: filter_concat comp_def filter_group_diagnostics cong: if_cong)
  then show ?thesis
    by (simp add: concat_single_key [OF assms])
qed

lemma mset_concat_map:
  "mset (concat (map f xs)) = sum_mset (image_mset (\<lambda>x. mset (f x)) (mset xs))"
  by (induction xs) simp_all

lemma count_example:
  "occurrence_count L [errors_New ''a'' 1, errors_New ''a'' 2, errors_New ''b'' 3] msg
     = (if msg = ''a'' then 2 else if msg = ''b'' then 1 else 0)"
  by (auto simp add: occurrence_count_def recorded_a recorded_b)

lemma count_example2:
  "occurrence_count L [errors_New ''a'' 1, errors_New ''a'' 2, errors_New ''b'' 3, errors_New ''b'' 4] msg
     = (if msg = ''a'' then 2 else if msg = ''b'' then 2 else 0)"
  by (auto simp add: occurrence_count_def recorded_a recorded_b)

lemma occurrences_example2:
  "occurrences L [errors_New ''a'' 1, errors_New ''a'' 2, errors_New ''b'' 3, errors_New ''b'' 4] ''a''
     = [info_of L (errors_New ''a'' 1), info_of L (errors_New ''a'' 2)]"
  "occurrences L [errors_New ''a'' 1, errors_New ''a'' 2, errors_New ''b'' 3, errors_New ''b'' 4] ''b''
     = [info_of L (errors_New ''b'' 3), info_of L (errors_New ''b'' 4)]"
  by (simp_all add: occurrences_def recorded_a recorded_b)

lemma count_quoted:
  "count_list (extractStringLiteral (quoted s)) backslash = count_list s backslash"
  unfolding quoted_def count_extractStringLiteral by simp

lemma count_raw_quoted:
  "count_list (extractStringLiteral (raw_quoted s)) backslash = count_list s backslash"
  unfolding raw_quoted_def count_extractStringLiteral by simp

lemma reported_group_key:
  assumes "(msg, locations) \<in> set (reported_groups (collected L nodes) order)"
      and "x \<in> Pos ` set locations"
  shows "key_of L x = msg"
  using assms by (auto simp add: set_reported_groups Pos_occurrences)

lemma extract_errors_New_lit:
  "extractErrorMessage L \<lparr>Fun = SelectorExpr (Ident ''errors'') ''New'', Args = [lit], node_Pos = p\<rparr>
     = Some (message_of ''errors.New'' lit)"
  by (simp add: extractErrorMessage_def getErrorConstructName_def index_def)

lemma key_of_errors_New_lit:
  "key_of L \<lparr>Fun = SelectorExpr (Ident ''errors'') ''New'', Args = [lit], node_Pos = p\<rparr>
     = extractStringLiteral lit"
  by (simp add: key_of_def extract_errors_New_lit message_of_def Let_def)

lemma Trim_quoted:
  assumes "content = [] \<or> (hd content \<notin> {backquote, dquote} \<and> last content \<notin> {backquote, dquote})"
  shows "Trim (dquote # content @ [dquote]) [backquote, dquote] = content
       \<and> Trim (backquote # content @ [backquote]) [backquote, dquote] = content"
proof (cases "content = []")
  case True
  then show ?thesis by (simp add: Trim_def)
next
  case False
  let ?P = "\<lambda>c. c \<in> set [backquote, dquote]"
  have front: "dropWhile ?P (content @ [q]) = content @ [q]" for q
    using assms False by (cases content) auto
  have rear: "dropWhile ?P (rev content) = rev content"
    using assms False by (cases content rule: rev_cases) auto
  show ?thesis
    using front rear by (simp add: Trim_def)
qed

lemma key_boom: "extractStringLiteral (quoted ''boom'') = ''boom''"
  by (simp add: quoted_def Trim_def)

lemma log_package_mylog: "log_package L ''mylog''"
  by (simp add: log_package_def ToLower_def is_ascii_def lower_char_def is_upper_def HasPrefix_def)

lemma log_func_Printf: "log_func ''Printf''"
  by (simp add: log_func_def logFuncSuffixes_def)

lemma error_constructor_dot:
  "error_constructor L sel \<Longrightarrow> sel \<noteq> []"
  by (auto simp add: error_constructor_def HasSuffix_def HasPrefix_def ToLower_def is_ascii_def)

lemma not_error_constructor_log:
  "\<not> error_constructor L ''log''" "\<not> error_constructor L ''logger''"
  "\<not> error_constructor L ''Log''" "\<not> error_constructor L ''Logf''"
  by (simp_all add: error_constructor_def HasSuffix_def HasPrefix_def ToLower_def is_ascii_def lower_char_def
        is_upper_def)

lemma logging_first_argument:
  assumes "Fun call = SelectorExpr (Ident pkg) sel" and "pkg = ''log'' \<or> pkg = ''logger''"
      and "log_func sel"
  shows "getErrorConstructName L call = pkg
       \<and> extractErrorMessage L call
           = Some (case Args call of [] \<Rightarrow> ([], []) | first # others \<Rightarrow> message_of pkg first)"
proof -
  have lp: "log_package L pkg"
    using assms(2)
    by (auto simp add: log_package_def ToLower_def is_ascii_def lower_char_def is_upper_def HasPrefix_def)
  have c: "getErrorConstructName L call = pkg"
    using assms lp by (auto simp add: getErrorConstructName_def)
  show ?thesis
    using assms(2) c
    by (cases "Args call") (auto simp add: extractErrorMessage_def index_def)
qed

lemma error_constructor_examples:
  "error_constructor L ''NewError''" "error_constructor L ''LogError''" "\<not> log_package L ''db''"
  by (simp_all add: error_constructor_def log_package_def HasSuffix_def HasPrefix_def ToLower_def is_ascii_def
        lower_char_def is_upper_def)

lemma construct_mylog_Printf:
  "getErrorConstructName L
     \<lparr>Fun = SelectorExpr (Ident ''mylog'') ''Printf'',
      Args = [Ident ''err'', quoted ''boom''], node_Pos = 1\<rparr> = ''mylog''"
  by (simp add: getErrorConstructName_def log_package_mylog log_func_Printf)

lemma extract_mylog_Printf:
  "extractErrorMessage L
     \<lparr>Fun = SelectorExpr (Ident ''mylog'') ''Printf'',
      Args = [Ident ''err'', quoted ''boom''], node_Pos = 1\<rparr> = Some (''mylog'', ''boom'')"
  using construct_mylog_Printf
  by (simp add: extractErrorMessage_def default_msgArg_def index_def message_of_def key_boom)
     (simp add: quoted_def)

lemma Preorder_total: "Preorder L errorMap nodes \<noteq> None"
  by (simp add: Preorder_eq)

lemma run_total: "\<exists>ds. run L fset order nodes = Some ds"
  by (simp add: run_eq)

lemma visit_not_recorded: "\<not> recorded L node \<Longrightarrow> visit L errorMap node = Some errorMap"
  by (simp add: visit_eq)

lemma unmatched_not_recorded:
  "getErrorConstructName L call = [] \<Longrightarrow> extractErrorMessage L call = Some ([], []) \<and> \<not> recorded L call"
  by (simp add: extractErrorMessage_def recorded_def)

lemma not_string_lit_no_message: "\<not> is_string_lit e \<Longrightarrow> extractStringLiteral e = []"
  by (cases e) simp_all

lemma first_argument_not_literal:
  assumes "getErrorConstructName L call
             \<in> set [''errors.New'', ''fmt.Errorf'', ''log'', ''logger'', ''Log'', ''Logf'',
                    ''LogError'', ''LogErrorf'']"
      and "Args call = first # others" and "\<not> is_string_lit first"
  shows "extractErrorMessage L call = Some ([], []) \<and> \<not> recorded L call"
proof -
  have "message_of c first = ([], [])" for c
    using assms(3) by (simp add: message_of_def not_string_lit_no_message)
  then have "extractErrorMessage L call = Some ([], [])"
    using assms(1,2) by (auto simp add: extractErrorMessage_def index_def)
  then show ?thesis by (simp add: recorded_def)
qed

lemma empty_key_not_recorded: "key_of L call = [] \<Longrightarrow> \<not> recorded L call"
  by (auto simp add: key_of_def recorded_def split: option.splits)

lemma message_of_empty:
  "extractStringLiteral msgArg = [] \<Longrightarrow> message_of construct msgArg = ([], [])"
  by (simp add: message_of_def)

lemma char_of_high:
  fixes n :: nat
  assumes "128 \<le> n" and "n < 256"
  shows "char_of n \<noteq> backslash"
proof
  assume "char_of n = backslash"
  then have "(of_char (char_of n) :: nat) = of_char backslash"
    by (rule arg_cong)
  then have "n mod 256 = 92"
    by (simp add: of_char_of)
  with assms show False by simp
qed

lemma not_in_set2: "x \<noteq> a \<Longrightarrow> x \<noteq> b \<Longrightarrow> x \<notin> set [a, b]"
  by simp

lemma not_in_set3: "x \<noteq> a \<Longrightarrow> x \<noteq> b \<Longrightarrow> x \<noteq> c \<Longrightarrow> x \<notin> set [a, b, c]"
  by simp

lemma not_in_set4:
  "x \<noteq> a \<Longrightarrow> x \<noteq> b \<Longrightarrow> x \<noteq> c \<Longrightarrow> x \<noteq> d \<Longrightarrow> x \<notin> set [a, b, c, d]"
  by simp

lemma utf8_shape:
  assumes "cp \<le> 0x10FFFF"
  shows "(\<exists>b. utf8 cp = [b]) \<or> backslash \<notin> set (utf8 cp)"
proof -
  have m: "backslash \<noteq> char_of (0x80 + k mod 64)" for k :: nat
    by (rule char_of_high [symmetric]) simp_all
  consider "cp < 0x80" | "0x80 \<le> cp" "cp < 0x800" | "0x800 \<le> cp" "cp < 0x10000" | "0x10000 \<le> cp"
    by linarith
  then show ?thesis
  proof cases
    case 1
    then show ?thesis by (simp add: utf8_def)
  next
    case 2
    have "backslash \<noteq> char_of (0xC0 + cp div 64)"
      using 2 by (intro char_of_high [symmetric]) simp_all
    then have "backslash \<notin> set [char_of (0xC0 + cp div 64), char_of (0x80 + cp mod 64)]"
      by (intro not_in_set2 m)
    moreover have "utf8 cp = [char_of (0xC0 + cp div 64), char_of (0x80 + cp mod 64)]"
      using 2 by (simp add: utf8_def)
    ultimately show ?thesis by (simp only: simp_thms)
  next
    case 3
    have "backslash \<noteq> char_of (0xE0 + cp div 4096)"
      using 3 by (intro char_of_high [symmetric]) simp_all
    then have "backslash \<notin> set [char_of (0xE0 + cp div 4096), char_of (0x80 + cp div 64 mod 64),
                 char_of (0x80 + cp mod 64)]"
      by (intro not_in_set3 m)
    moreover have "utf8 cp = [char_of (0xE0 + cp div 4096), char_of (0x80 + cp div 64 mod 64),
                 char_of (0x80 + cp mod 64)]"
      using 3 by (simp add: utf8_def)
    ultimately show ?thesis by (simp only: simp_thms)
  next
    case 4
    have "backslash \<noteq> char_of (0xF0 + cp div 262144)"
      using assms by (intro char_of_high [symmetric]) simp_all
    then have "backslash \<notin> set [char_of (0xF0 + cp div 262144), char_of (0x80 + cp div 4096 mod 64),
                 char_of (0x80 + cp div 64 mod 64), char_of (0x80 + cp mod 64)]"
      by (intro not_in_set4 m)
    moreover have "utf8 cp = [char_of (0xF0 + cp div 262144), char_of (0x80 + cp div 4096 mod 64),
                 char_of (0x80 + cp div 64 mod 64), char_of (0x80 + cp mod 64)]"
      using 4 by (simp add: utf8_def)
    ultimately show ?thesis by (simp only: simp_thms)
  qed
qed

lemma code_point_shape:
  "code_point cp = Some val \<Longrightarrow> (\<exists>b. val = [b]) \<or> backslash \<notin> set val"
  using utf8_shape [of cp] by (auto simp add: code_point_def split: if_splits)

lemma hex_harmless: "is_hex c \<Longrightarrow> harmless c"
  by (auto simp add: is_hex_def harmless_def is_digit_def)

lemma octal_harmless: "is_octal c \<Longrightarrow> harmless c"
  by (auto simp add: is_octal_def harmless_def)

lemma simple_escape_shape:
  "map_of simple_escapes c = Some b \<Longrightarrow>
     harmless c \<or> (c = backslash \<and> b = backslash) \<or> (c = dquote \<and> b = dquote)"
  by (auto simp add: simple_escapes_def harmless_def split: if_splits)

lemma escape_value_shape:
  assumes "escape_value body = Some val"
  shows "body \<noteq> []"
    and "(\<exists>b. val = [b]) \<or> backslash \<notin> set val"
    and "list_all harmless body \<or> (body = [backslash] \<and> val = [backslash])
           \<or> (body = [dquote] \<and> val = [dquote])"
proof -
  from assms obtain c digits where body: "body = c # digits"
    by (cases body) (simp_all add: escape_value_def)
  then show "body \<noteq> []" by simp
  show "(\<exists>b. val = [b]) \<or> backslash \<notin> set val"
    using assms body code_point_shape [of "digits_value 16 digits" val]
    by (auto simp add: escape_value_def split: if_splits)
  show "list_all harmless body \<or> (body = [backslash] \<and> val = [backslash])
           \<or> (body = [dquote] \<and> val = [dquote])"
  proof (cases "digits = []")
    case True
    with assms body obtain b where "map_of simple_escapes c = Some b" and "val = [b]"
      by (auto simp add: escape_value_def)
    with simple_escape_shape [of c b] body True show ?thesis by auto
  next
    case False
    have x: "harmless (CHR ''x'')" "harmless (CHR ''u'')" "harmless (CHR ''U'')"
      by (simp_all add: harmless_def)
    from assms body False have "list_all harmless body"
      using x hex_harmless octal_harmless
      by (auto simp add: escape_value_def list_all_iff split: if_splits)
    then show ?thesis by simp
  qed
qed

lemma piece_count:
  assumes "valid_piece p"
  shows "count_list (piece_value p) backslash \<le> count_list (piece_source p) backslash"
    and "\<not> backslash_piece p \<Longrightarrow>
           count_list (piece_value p) backslash < count_list (piece_source p) backslash"
proof -
  show "count_list (piece_value p) backslash \<le> count_list (piece_source p) backslash"
  proof (cases p)
    case (Plain c)
    then show ?thesis by simp
  next
    case (Escape body val)
    with assms escape_value_shape(2) [of body val] show ?thesis
      by (auto simp add: count_list_0_iff)
  qed
  show "count_list (piece_value p) backslash < count_list (piece_source p) backslash"
    if "\<not> backslash_piece p"
  proof (cases p)
    case (Plain c)
    with that show ?thesis by simp
  next
    case (Escape body val)
    show ?thesis
    proof (cases "backslash \<in> set val")
      case False
      then have "count_list val backslash = 0"
        by (simp add: count_list_0_iff)
      with Escape show ?thesis by simp
    next
      case True
      with assms Escape escape_value_shape(2) [of body val] have val: "val = [backslash]"
        by auto
      with that Escape have "backslash \<in> set body"
        by simp
      then have "0 < count_list body backslash"
        using count_list_0_iff [of body backslash] by simp
      with val Escape show ?thesis by simp
    qed
  qed
qed

lemma pieces_count:
  "list_all valid_piece ps \<Longrightarrow>
     count_list (runtime_value ps) backslash \<le> count_list (source_text ps) backslash"
proof (induction ps)
  case Nil
  then show ?case by (simp add: runtime_value_def source_text_def)
next
  case (Cons p ps)
  then show ?case
    using piece_count(1) [of p] by (simp add: runtime_value_def source_text_def)
qed

lemma pieces_count_strict:
  "list_all valid_piece ps \<Longrightarrow> \<not> list_all backslash_piece ps \<Longrightarrow>
     count_list (runtime_value ps) backslash < count_list (source_text ps) backslash"
proof (induction ps)
  case Nil
  then show ?case by simp
next
  case (Cons p ps)
  show ?case
  proof (cases "backslash_piece p")
    case True
    with Cons piece_count(1) [of p] show ?thesis
      by (simp add: runtime_value_def source_text_def)
  next
    case False
    with Cons.prems piece_count(2) [of p] pieces_count [of ps] show ?thesis
      by (simp add: runtime_value_def source_text_def)
  qed
qed

lemma tame_piece: "valid_piece p \<Longrightarrow> backslash_piece p \<Longrightarrow> tame p"
proof (cases p)
  case (Plain c)
  assume "valid_piece p"
  with Plain show ?thesis by simp
next
  case (Escape body val)
  assume "valid_piece p" and "backslash_piece p"
  with Escape escape_value_shape(1,3) [of body val] show ?thesis
    by auto
qed

lemma tame_pieces:
  "list_all valid_piece ps \<Longrightarrow> list_all backslash_piece ps \<Longrightarrow> list_all tame ps"
  by (induction ps) (simp_all add: tame_piece)

lemma source_text_Cons: "source_text (p # ps) = piece_source p @ source_text ps"
  by (simp add: source_text_def)

lemma runtime_value_Cons: "runtime_value (p # ps) = piece_value p @ runtime_value ps"
  by (simp add: runtime_value_def)

lemma not_class_backslash: "\<not> is_class_char backslash"
  using class_not_backslash by blast

lemma tame_takeWhile:
  "list_all tame ps \<Longrightarrow>
     takeWhile is_class_char (source_text ps) = takeWhile is_class_char (runtime_value ps)"
proof (induction ps)
  case Nil
  then show ?case by (simp add: source_text_def runtime_value_def)
next
  case (Cons p ps)
  then show ?case
    by (cases p) (simp_all add: source_text_Cons runtime_value_Cons not_class_backslash)
qed

lemma tame_verb_len: "list_all tame ps \<Longrightarrow> verb_len (source_text ps) = verb_len (runtime_value ps)"
  by (simp add: verb_len_def tame_takeWhile)

lemma tame_drop:
  "list_all tame ps \<Longrightarrow> n \<le> length (takeWhile is_class_char (source_text ps)) \<Longrightarrow>
     drop n (source_text ps) = source_text (drop n ps)
     \<and> drop n (runtime_value ps) = runtime_value (drop n ps)
     \<and> sum_list (map body_length (drop n ps)) = sum_list (map body_length ps)"
proof (induction ps arbitrary: n)
  case Nil
  then show ?case by (simp add: source_text_def runtime_value_def)
next
  case (Cons p ps)
  show ?case
  proof (cases n)
    case 0
    then show ?thesis by simp
  next
    case (Suc m)
    show ?thesis
    proof (cases p)
      case (Plain c)
      with Cons.prems Suc have "is_class_char c" and "m \<le> length (takeWhile is_class_char (source_text ps))"
        by (auto simp add: source_text_Cons split: if_splits)
      with Cons.IH [of m] Cons.prems(1) Plain Suc show ?thesis
        by (simp add: source_text_Cons runtime_value_Cons)
    next
      case (Escape body val)
      with Cons.prems Suc show ?thesis
        by (simp add: source_text_Cons not_class_backslash)
    qed
  qed
qed

lemma harmless_no_percent: "list_all harmless body \<Longrightarrow> percent \<notin> set body"
  by (auto simp add: list_all_iff harmless_def)

lemma tame_length:
  "list_all tame ps \<Longrightarrow>
     length (ReplaceAllString (source_text ps) repl)
       = length (ReplaceAllString (runtime_value ps) repl) + sum_list (map body_length ps)"
proof (induction ps rule: length_induct)
  case (1 ps)
  show ?case
  proof (cases ps)
    case Nil
    then show ?thesis by (simp add: source_text_def runtime_value_def)
  next
    case (Cons p rest)
    with 1 have rest: "list_all tame rest" and p: "tame p"
      by simp_all
    note IH = 1(1) [rule_format]
    show ?thesis
    proof (cases p)
      case (Plain c)
      let ?n = "verb_len (source_text rest)"
      have n: "verb_len (runtime_value rest) = ?n"
        using rest by (simp add: tame_verb_len)
      show ?thesis
      proof (cases "c = percent \<and> 0 < ?n")
        case True
        have d: "drop ?n (source_text rest) = source_text (drop ?n rest)
                 \<and> drop ?n (runtime_value rest) = runtime_value (drop ?n rest)
                 \<and> sum_list (map body_length (drop ?n rest)) = sum_list (map body_length rest)"
          using rest verb_len_le_run by (rule tame_drop)
        have "list_all tame (drop ?n rest)"
          using rest by (auto simp add: list_all_iff dest: in_set_dropD)
        moreover have "length (drop ?n rest) < length ps"
          using Cons by simp
        ultimately have "length (ReplaceAllString (source_text (drop ?n rest)) repl)
            = length (ReplaceAllString (runtime_value (drop ?n rest)) repl)
              + sum_list (map body_length (drop ?n rest))"
          by (rule IH [rotated])
        with True d n Cons Plain show ?thesis
          by (simp add: source_text_Cons runtime_value_Cons)
      next
        case False
        have "length (ReplaceAllString (source_text rest) repl)
            = length (ReplaceAllString (runtime_value rest) repl) + sum_list (map body_length rest)"
          using Cons rest by (intro IH) simp_all
        with False n Cons Plain show ?thesis
          by (auto simp add: source_text_Cons runtime_value_Cons)
      qed
    next
      case (Escape body val)
      with p have val: "val = [backslash]" and body: "percent \<notin> set body"
        by (simp_all add: harmless_no_percent)
      have "length (ReplaceAllString (source_text rest) repl)
            = length (ReplaceAllString (runtime_value rest) repl) + sum_list (map body_length rest)"
        using Cons rest by (intro IH) simp_all
      with val Cons Escape show ?thesis
        by (simp add: source_text_Cons runtime_value_Cons ReplaceAllString_no_percent [OF body])
    qed
  qed
qed

lemma tame_no_quotes:
  "list_all tame ps \<Longrightarrow>
     dquote \<notin> set (source_text ps) \<and> backquote \<notin> set (source_text ps)
     \<and> dquote \<notin> set (runtime_value ps) \<and> backquote \<notin> set (runtime_value ps)"
proof (induction ps)
  case Nil
  then show ?case by (simp add: source_text_def runtime_value_def)
next
  case (Cons p ps)
  then show ?case
    by (cases p) (auto simp add: source_text_Cons runtime_value_Cons list_all_iff harmless_def)
qed

lemma Trim_no_quotes:
  assumes "dquote \<notin> set content" and "backquote \<notin> set content"
  shows "Trim (dquote # content @ [dquote]) [backquote, dquote] = content"
    and "Trim (backquote # content @ [backquote]) [backquote, dquote] = content"
proof -
  have "content = [] \<or> (hd content \<notin> {backquote, dquote} \<and> last content \<notin> {backquote, dquote})"
    using assms by (cases "content = []") (auto dest: hd_in_set last_in_set)
  then show "Trim (dquote # content @ [dquote]) [backquote, dquote] = content"
    and "Trim (backquote # content @ [backquote]) [backquote, dquote] = content"
    by (simp_all add: Trim_quoted)
qed

lemma escape_body_length:
  "list_all tame ps \<Longrightarrow> list_ex is_escape ps \<Longrightarrow> 0 < sum_list (map body_length ps)"
proof (induction ps)
  case Nil
  then show ?case by simp
next
  case (Cons p ps)
  then show ?case by (cases p) auto
qed

lemma escaped_keys_differ:
  assumes "list_all valid_piece ps" and "list_ex is_escape ps"
  shows "extractStringLiteral (quoted (source_text ps))
           \<noteq> extractStringLiteral (raw_quoted (runtime_value ps))"
proof (cases "list_all backslash_piece ps")
  case False
  with assms(1) have "count_list (runtime_value ps) backslash < count_list (source_text ps) backslash"
    by (rule pieces_count_strict)
  then have "count_list (extractStringLiteral (raw_quoted (runtime_value ps))) backslash
               \<noteq> count_list (extractStringLiteral (quoted (source_text ps))) backslash"
    by (simp add: count_quoted count_raw_quoted)
  then show ?thesis by metis
next
  case True
  with assms(1) have t: "list_all tame ps"
    by (rule tame_pieces)
  note q = tame_no_quotes [OF t]
  have a: "extractStringLiteral (quoted (source_text ps)) = ReplaceAllString (source_text ps) ''%x''"
    using q by (simp add: quoted_def Trim_no_quotes)
  have b: "extractStringLiteral (raw_quoted (runtime_value ps))
             = ReplaceAllString (runtime_value ps) ''%x''"
    using q by (simp add: raw_quoted_def Trim_no_quotes)
  have "length (ReplaceAllString (source_text ps) ''%x'')
          \<noteq> length (ReplaceAllString (runtime_value ps) ''%x'')"
    using tame_length [OF t, of "''%x''"] escape_body_length [OF t assms(2)] by linarith
  with a b show ?thesis by metis
qed

lemma sample_pieces_valid: "list_all valid_piece sample_pieces"
  by (simp add: sample_pieces_def escape_value_def simple_escapes_def is_hex_def is_octal_def
        is_digit_def is_lower_def digits_value_def digit_value_def code_point_def utf8_def
        char_of_def bit_Suc_0_iff)

lemma sample_pieces_texts:
  "source_text sample_pieces
     = ''ok '' @ [backslash] @ ''x41'' @ [backslash] @ ''n%d'' @ [backslash] @ ''x5c''
       @ [backslash] @ ''u00e9'' @ [backslash] @ ''101''"
  "runtime_value sample_pieces = ''ok A'' @ [newline] @ ''%d'' @ [backslash, CHR 0xC3, CHR 0xA9] @ ''A''"
  by (simp_all add: sample_pieces_def source_text_def runtime_value_def)

lemma dotted_I_name:
  "error_constructor sample_lower (''Fa'' @ [CHR 0xC4, CHR 0xB0] @ ''l'')"
  "\<not> log_package sample_lower ''svc''"
  "\<not> error_constructor (\<lambda>s. s) (''Fa'' @ [CHR 0xC4, CHR 0xB0] @ ''l'')"
  by (simp_all add: error_constructor_def log_package_def ToLower_def is_ascii_def sample_lower_def
        lower_char_def is_upper_def HasPrefix_def HasSuffix_def)

lemmas char_class_defs = is_class_char_def is_letter_def is_lower_def is_upper_def is_digit_def

subsection \<open>The normalizer\<close>


subsection \<open>Grouping and reporting\<close>

text \<open>Claim C1. Let \<open>order\<close> be an iteration order of the map that the traversal of
  \<open>nodes\<close> builds. Two recorded calls \<open>a\<close> and \<open>b\<close> are in the same reported
  group if and only if their keys are equal and the key has at least two occurrences;
  the diagnostics of the pass are those of the reported groups, and a key with exactly
  one occurrence appears in no diagnostic.\<close>

theorem grouping_correctness:
  assumes "range_order (collected L nodes) order"
      and "a \<in> set nodes" and "recorded L a" and "b \<in> set nodes" and "recorded L b"
  shows "((\<exists>(msg, locations) \<in> set (reported_groups (collected L nodes) order).
             a \<in> Pos ` set locations \<and> b \<in> Pos ` set locations)
          \<longleftrightarrow> key_of L a = key_of L b \<and> 2 \<le> occurrence_count L nodes (key_of L a))
       \<and> (\<exists>ds. run L fset order nodes = Some ds
              \<and> ds = concat (map (\<lambda>(msg, locations). group_diagnostics fset msg locations)
                                (reported_groups (collected L nodes) order))
              \<and> (\<forall>msg. occurrence_count L nodes msg = 1 \<longrightarrow>
                      (\<forall>d \<in> set ds. StringArg msg \<notin> set (FmtArgs d))))"
proof (intro conjI)
  show "(\<exists>(msg, locations) \<in> set (reported_groups (collected L nodes) order).
             a \<in> Pos ` set locations \<and> b \<in> Pos ` set locations)
          \<longleftrightarrow> key_of L a = key_of L b \<and> 2 \<le> occurrence_count L nodes (key_of L a)"
    using assms by (rule same_group_iff)
next
  let ?ds = "concat (map (\<lambda>(msg, locations). group_diagnostics fset msg locations)
                                (reported_groups (collected L nodes) order))"
  have r: "run L fset order nodes = Some ?ds"
    by (rule run_reported_groups)
  have "\<forall>msg. occurrence_count L nodes msg = 1 \<longrightarrow> (\<forall>d \<in> set ?ds. StringArg msg \<notin> set (FmtArgs d))"
  proof (intro allI impI ballI notI)
    fix msg d
    assume one: "occurrence_count L nodes msg = 1" and d: "d \<in> set ?ds"
       and k: "StringArg msg \<in> set (FmtArgs d)"
    from run_diagnostic_key [OF r d k] one show False by simp
  qed
  with r show "\<exists>ds. run L fset order nodes = Some ds
              \<and> ds = concat (map (\<lambda>(msg, locations). group_diagnostics fset msg locations)
                                (reported_groups (collected L nodes) order))
              \<and> (\<forall>msg. occurrence_count L nodes msg = 1 \<longrightarrow>
                      (\<forall>d \<in> set ds. StringArg msg \<notin> set (FmtArgs d)))"
    by blast
qed

text \<open>The claim at three calls \<^verbatim>\<open>errors.New("a")\<close>, \<^verbatim>\<open>errors.New("a")\<close>,
  \<^verbatim>\<open>errors.New("b")\<close>: the two first are in one reported group, and no diagnostic
  names the key \<open>b\<close>.\<close>

theorem grouping_correctness_witness:
  "range_order (collected sample_lower [errors_New ''a'' 1, errors_New ''a'' 2, errors_New ''b'' 3]) [''a'', ''b'']
   \<and> recorded sample_lower (errors_New ''a'' 1) \<and> recorded sample_lower (errors_New ''a'' 2)
   \<and> key_of sample_lower (errors_New ''a'' 1) = key_of sample_lower (errors_New ''a'' 2)
   \<and> occurrence_count sample_lower [errors_New ''a'' 1, errors_New ''a'' 2, errors_New ''b'' 3] ''a'' = 2
   \<and> occurrence_count sample_lower [errors_New ''a'' 1, errors_New ''a'' 2, errors_New ''b'' 3] ''b'' = 1
   \<and> (\<exists>(msg, locations) \<in> set (reported_groups
            (collected sample_lower [errors_New ''a'' 1, errors_New ''a'' 2, errors_New ''b'' 3]) [''a'', ''b'']).
          errors_New ''a'' 1 \<in> Pos ` set locations \<and> errors_New ''a'' 2 \<in> Pos ` set locations)
   \<and> (\<exists>ds. run sample_lower line_of [''a'', ''b''] [errors_New ''a'' 1, errors_New ''a'' 2, errors_New ''b'' 3] = Some ds
          \<and> \<not> (\<exists>d \<in> set ds. StringArg ''b'' \<in> set (FmtArgs d)))"
proof -
  let ?ns = "[errors_New ''a'' 1, errors_New ''a'' 2, errors_New ''b'' 3]"
  have order: "range_order (collected sample_lower ?ns) [''a'', ''b'']"
    by (auto simp add: range_order_collected count_example split: if_splits)
  have a1: "errors_New ''a'' 1 \<in> set ?ns" and a2: "errors_New ''a'' 2 \<in> set ?ns"
    by simp_all
  have r1: "recorded sample_lower (errors_New ''a'' 1)" and r2: "recorded sample_lower (errors_New ''a'' 2)"
    by (rule recorded_a)+
  have keys: "key_of sample_lower (errors_New ''a'' 1) = key_of sample_lower (errors_New ''a'' 2)"
    by (simp add: recorded_a)
  have ca: "occurrence_count sample_lower ?ns ''a'' = 2" and cb: "occurrence_count sample_lower ?ns ''b'' = 1"
    by (simp_all add: count_example)
  note claim = grouping_correctness [OF order a1 r1 a2 r2, of line_of]
  have "key_of sample_lower (errors_New ''a'' 1) = key_of sample_lower (errors_New ''a'' 2)
          \<and> 2 \<le> occurrence_count sample_lower ?ns (key_of sample_lower (errors_New ''a'' 1))"
    by (simp add: recorded_a ca)
  with claim have same: "\<exists>(msg, locations) \<in> set (reported_groups (collected sample_lower ?ns) [''a'', ''b'']).
          errors_New ''a'' 1 \<in> Pos ` set locations \<and> errors_New ''a'' 2 \<in> Pos ` set locations"
    by blast
  from claim cb have "\<exists>ds. run sample_lower line_of [''a'', ''b''] ?ns = Some ds
          \<and> \<not> (\<exists>d \<in> set ds. StringArg ''b'' \<in> set (FmtArgs d))"
    by blast
  with order r1 r2 keys ca cb same show ?thesis
    by (intro conjI)
qed

text \<open>Claim C2. For every iteration order and every list of calls the pass does not
  panic, and its output is, group after group in the order of the iteration: nothing for
  a key with fewer than two occurrences; else the primary diagnostic
  \<^verbatim>\<open>duplicate error message %q used in multiple locations\<close> with the key, at the
  position of the first occurrence in traversal order, followed for each later
  occurrence, in traversal order, by the diagnostic
  \<^verbatim>\<open>duplicate error message %q also used at %v\<close> with the key and the resolved position
  of the first occurrence, at the position of that later occurrence.\<close>

theorem first_occurrence_anchoring:
  "run L fset order nodes =
     Some (concat (map
       (\<lambda>msg. case map (info_of L) (filter (\<lambda>node. recorded L node \<and> key_of L node = msg) nodes) of
                 firstLoc # second # rest \<Rightarrow>
                   \<lparr>diag_Pos = node_Pos (Pos firstLoc),
                    Format = ''duplicate error message %q used in multiple locations'',
                    FmtArgs = [StringArg msg]\<rparr>
                   # map (\<lambda>loc. \<lparr>diag_Pos = node_Pos (Pos loc),
                                  Format = ''duplicate error message %q also used at %v'',
                                  FmtArgs = [StringArg msg, PositionArg (fset (node_Pos (Pos firstLoc)))]\<rparr>)
                       (second # rest)
               | _ \<Rightarrow> [])
       order))"
proof -
  have "group_diagnostics fset msg (occurrences L nodes msg)
        = (case map (info_of L) (filter (\<lambda>node. recorded L node \<and> key_of L node = msg) nodes) of
                 firstLoc # second # rest \<Rightarrow>
                   \<lparr>diag_Pos = node_Pos (Pos firstLoc),
                    Format = ''duplicate error message %q used in multiple locations'',
                    FmtArgs = [StringArg msg]\<rparr>
                   # map (\<lambda>loc. \<lparr>diag_Pos = node_Pos (Pos loc),
                                  Format = ''duplicate error message %q also used at %v'',
                                  FmtArgs = [StringArg msg, PositionArg (fset (node_Pos (Pos firstLoc)))]\<rparr>)
                       (second # rest)
               | _ \<Rightarrow> [])" for msg
    unfolding group_diagnostics_def occurrences_def primary_def secondary_def ..
  then show ?thesis
    by (simp only: run_eq)
qed

text \<open>Claim C3, as stated, fails: the order of the groups is the order in which Go's
  \<^verbatim>\<open>range\<close> iterates over the map. With two groups, both orders of the two keys are
  iteration orders, and the two outputs differ.\<close>

theorem determinism_counterexample:
  "range_order (collected sample_lower [errors_New ''a'' 1, errors_New ''a'' 2, errors_New ''b'' 3, errors_New ''b'' 4])
     [''a'', ''b'']
   \<and> range_order (collected sample_lower [errors_New ''a'' 1, errors_New ''a'' 2, errors_New ''b'' 3, errors_New ''b'' 4])
     [''b'', ''a'']
   \<and> run sample_lower line_of [''a'', ''b''] [errors_New ''a'' 1, errors_New ''a'' 2, errors_New ''b'' 3, errors_New ''b'' 4]
       \<noteq> run sample_lower line_of [''b'', ''a''] [errors_New ''a'' 1, errors_New ''a'' 2, errors_New ''b'' 3, errors_New ''b'' 4]"
proof -
  let ?ns = "[errors_New ''a'' 1, errors_New ''a'' 2, errors_New ''b'' 3, errors_New ''b'' 4]"
  have o1: "range_order (collected sample_lower ?ns) [''a'', ''b'']"
    by (auto simp add: range_order_collected count_example2 split: if_splits)
  have o2: "range_order (collected sample_lower ?ns) [''b'', ''a'']"
    by (auto simp add: range_order_collected count_example2 split: if_splits)
  have "run sample_lower line_of [''a'', ''b''] ?ns \<noteq> run sample_lower line_of [''b'', ''a''] ?ns"
    by (simp add: run_eq occurrences_example2 group_diagnostics_def primary_def secondary_def)
  with o1 o2 show ?thesis by simp
qed

text \<open>Claim C3, amended. Two executions on the same calls, each with an iteration order
  of the map, produce the same diagnostics as a multiset, and the diagnostics that name
  one key are the same list in both; only the order of the groups may differ.\<close>

theorem determinism_up_to_group_order:
  assumes "range_order (collected L nodes) order1" and "range_order (collected L nodes) order2"
  shows "\<exists>ds1 ds2. run L fset order1 nodes = Some ds1 \<and> run L fset order2 nodes = Some ds2
           \<and> mset ds1 = mset ds2
           \<and> (\<forall>msg. filter (\<lambda>d. StringArg msg \<in> set (FmtArgs d)) ds1
                     = filter (\<lambda>d. StringArg msg \<in> set (FmtArgs d)) ds2)"
proof -
  let ?f = "\<lambda>msg. group_diagnostics fset msg (occurrences L nodes msg)"
  from assms have d1: "distinct order1" and d2: "distinct order2" and s: "set order1 = set order2"
    by (simp_all add: range_order_def)
  then have "mset order1 = mset order2"
    by (simp add: set_eq_iff_mset_eq_distinct)
  then have "mset (concat (map ?f order1)) = mset (concat (map ?f order2))"
    by (simp only: mset_concat_map)
  moreover have "filter (\<lambda>d. StringArg msg \<in> set (FmtArgs d)) (concat (map ?f order1))
        = filter (\<lambda>d. StringArg msg \<in> set (FmtArgs d)) (concat (map ?f order2))" for msg
    by (simp only: filter_run_key [OF d1] filter_run_key [OF d2] s)
  ultimately show ?thesis
    by (simp only: run_eq) blast
qed

theorem determinism_up_to_group_order_witness:
  "range_order (collected sample_lower [errors_New ''a'' 1, errors_New ''a'' 2, errors_New ''b'' 3, errors_New ''b'' 4])
     [''a'', ''b'']
   \<and> range_order (collected sample_lower [errors_New ''a'' 1, errors_New ''a'' 2, errors_New ''b'' 3, errors_New ''b'' 4])
     [''b'', ''a'']
   \<and> (\<exists>ds1 ds2.
         run sample_lower line_of [''a'', ''b''] [errors_New ''a'' 1, errors_New ''a'' 2, errors_New ''b'' 3, errors_New ''b'' 4]
           = Some ds1
         \<and> run sample_lower line_of [''b'', ''a''] [errors_New ''a'' 1, errors_New ''a'' 2, errors_New ''b'' 3, errors_New ''b'' 4]
           = Some ds2
         \<and> mset ds1 = mset ds2
         \<and> filter (\<lambda>d. StringArg ''a'' \<in> set (FmtArgs d)) ds1
             = filter (\<lambda>d. StringArg ''a'' \<in> set (FmtArgs d)) ds2)"
proof -
  let ?ns = "[errors_New ''a'' 1, errors_New ''a'' 2, errors_New ''b'' 3, errors_New ''b'' 4]"
  have o1: "range_order (collected sample_lower ?ns) [''a'', ''b'']"
    by (auto simp add: range_order_collected count_example2 split: if_splits)
  have o2: "range_order (collected sample_lower ?ns) [''b'', ''a'']"
    by (auto simp add: range_order_collected count_example2 split: if_splits)
  from determinism_up_to_group_order [OF o1 o2, of line_of] o1 o2 show ?thesis
    by blast
qed

subsection \<open>Format specifiers, delimiters and escape sequences\<close>

text \<open>Claim C5, as stated, fails: the character class of the regular expression holds
  the letters too, so letters that follow the verb are part of the match. For the content
  \<^verbatim>\<open>timeout after %dms\<close> the code gives \<^verbatim>\<open>timeout after %x\<close>; the pattern of
  the claim gives \<^verbatim>\<open>timeout after %xms\<close>.\<close>

theorem format_specifier_counterexample:
  "extractStringLiteral (quoted ''timeout after %dms'') = ''timeout after %x''
   \<and> spec_ReplaceAllString ''timeout after %dms'' ''%x'' = ''timeout after %xms''"
  by (simp add: quoted_def Trim_def verb_len_def char_class_defs is_flag_char_def)

text \<open>Claim C5, amended. Let \<open>pre\<close> hold no percent sign. A percent sign followed by
  characters of the class (letters, digits, \<open>.\<close>, \<open>-\<close>, \<open>+\<close>, \<open>#\<close>) and a letter
  \<open>l\<close> that is the last letter of the run of class characters is replaced by
  \<^verbatim>\<open>%x\<close>, and the scan goes on behind \<open>l\<close>; a percent sign whose run of class
  characters holds no letter stays, and the scan goes on behind it; a content without a
  percent sign is unchanged. The normalizer applies this to the trimmed token.\<close>

theorem format_specifier_replacement:
  assumes "percent \<notin> set pre"
  shows "(list_all is_class_char flags \<and> is_letter l
            \<and> \<not> list_ex is_letter (takeWhile is_class_char rest)
          \<longrightarrow> ReplaceAllString (pre @ percent # flags @ l # rest) ''%x''
                = pre @ ''%x'' @ ReplaceAllString rest ''%x'')
       \<and> (\<not> list_ex is_letter (takeWhile is_class_char rest)
          \<longrightarrow> ReplaceAllString (pre @ percent # rest) ''%x''
                = pre @ percent # ReplaceAllString rest ''%x'')
       \<and> ReplaceAllString pre ''%x'' = pre
       \<and> extractStringLiteral (BasicLit tok_STRING v)
           = ReplaceAllString (Trim v [backquote, dquote]) ''%x''"
proof (intro conjI impI)
  assume h: "list_all is_class_char flags \<and> is_letter l
            \<and> \<not> list_ex is_letter (takeWhile is_class_char rest)"
  then have "verb_len (flags @ l # rest) = Suc (length flags)"
    by (simp add: verb_len_last_letter)
  then have "ReplaceAllString (percent # flags @ l # rest) ''%x'' = ''%x'' @ ReplaceAllString rest ''%x''"
    by simp
  then show "ReplaceAllString (pre @ percent # flags @ l # rest) ''%x''
                = pre @ ''%x'' @ ReplaceAllString rest ''%x''"
    by (simp only: ReplaceAllString_no_percent [OF assms])
next
  assume "\<not> list_ex is_letter (takeWhile is_class_char rest)"
  then have "verb_len rest = 0"
    by (rule verb_len_no_letter)
  then have "ReplaceAllString (percent # rest) ''%x'' = percent # ReplaceAllString rest ''%x''"
    by simp
  then show "ReplaceAllString (pre @ percent # rest) ''%x'' = pre @ percent # ReplaceAllString rest ''%x''"
    by (simp only: ReplaceAllString_no_percent [OF assms])
next
  show "ReplaceAllString pre ''%x'' = pre"
    using ReplaceAllString_no_percent [OF assms, of "[]" "''%x''"] by simp
next
  show "extractStringLiteral (BasicLit tok_STRING v)
           = ReplaceAllString (Trim v [backquote, dquote]) ''%x''"
    by simp
qed

theorem format_specifier_replacement_witness:
  "percent \<notin> set ''took ''
   \<and> list_all is_class_char ''-5.2dm'' \<and> is_letter (CHR ''s'')
   \<and> \<not> list_ex is_letter (takeWhile is_class_char ''12, 100% done'')
   \<and> ReplaceAllString ''took %-5.2dms12, 100% done'' ''%x''
       = ''took %x'' @ ReplaceAllString ''12, 100% done'' ''%x''
   \<and> ReplaceAllString ''12, 100% done'' ''%x'' = ''12, 100% done''"
proof -
  have p: "percent \<notin> set ''took ''"
    by simp
  have h: "list_all is_class_char ''-5.2dm'' \<and> is_letter (CHR ''s'')
            \<and> \<not> list_ex is_letter (takeWhile is_class_char ''12, 100% done'')"
    by (simp add: char_class_defs)
  have rest: "ReplaceAllString ''12, 100% done'' ''%x'' = ''12, 100% done''"
    by (simp add: verb_len_def char_class_defs)
  from format_specifier_replacement [OF p, of "''-5.2dm''" "CHR ''s''" "''12, 100% done''"] h
  have "ReplaceAllString (''took '' @ percent # ''-5.2dm'' @ CHR ''s'' # ''12, 100% done'') ''%x''
          = ''took '' @ ''%x'' @ ReplaceAllString ''12, 100% done'' ''%x''"
    by blast
  with p h rest show ?thesis by simp
qed

text \<open>Claim C6 (the code departs from it). \<^verbatim>\<open>strings.Trim\<close> removes every leading
  and trailing quote and backquote, not one pair: the raw literal with the content
  \<^verbatim>\<open>"a"\<close> gets the key \<^verbatim>\<open>a\<close>, which is also the key of the literal \<^verbatim>\<open>"a"\<close>,
  and an interpreted literal that ends in an escaped quote keeps the backslash and loses
  the quote.\<close>

theorem trim_strips_content_quotes:
  "extractStringLiteral (raw_quoted (dquote # ''a'' @ [dquote])) = ''a''
   \<and> extractStringLiteral (quoted ''a'') = ''a''
   \<and> extractStringLiteral (quoted (''say '' @ [backslash, dquote] @ ''hi'' @ [backslash, dquote]))
       = ''say '' @ [backslash, dquote] @ ''hi'' @ [backslash]"
  by (simp add: quoted_def raw_quoted_def Trim_def)

text \<open>Claim C10. Take any content of an interpreted literal, made of valid pieces and
  with at least one escape sequence. The literal in double quotes and the raw literal that
  holds the denoted bytes in place of the escape sequences have the same value and
  different keys: the normalizer decodes nothing. Two calls with these keys are never in
  one reported group, whatever the other calls and the iteration order are.\<close>

theorem escapes_not_decoded:
  assumes "list_all valid_piece pieces" and "list_ex is_escape pieces"
  shows "extractStringLiteral (quoted (source_text pieces))
           \<noteq> extractStringLiteral (raw_quoted (runtime_value pieces))
       \<and> (key_of L x = extractStringLiteral (quoted (source_text pieces))
            \<and> key_of L y = extractStringLiteral (raw_quoted (runtime_value pieces))
          \<longrightarrow> \<not> (\<exists>(msg, locations) \<in> set (reported_groups (collected L nodes) order).
                   x \<in> Pos ` set locations \<and> y \<in> Pos ` set locations))"
proof (intro conjI impI)
  show d: "extractStringLiteral (quoted (source_text pieces))
           \<noteq> extractStringLiteral (raw_quoted (runtime_value pieces))"
    using assms by (rule escaped_keys_differ)
  assume k: "key_of L x = extractStringLiteral (quoted (source_text pieces))
            \<and> key_of L y = extractStringLiteral (raw_quoted (runtime_value pieces))"
  show "\<not> (\<exists>(msg, locations) \<in> set (reported_groups (collected L nodes) order).
                   x \<in> Pos ` set locations \<and> y \<in> Pos ` set locations)"
  proof
    assume "\<exists>(msg, locations) \<in> set (reported_groups (collected L nodes) order).
                   x \<in> Pos ` set locations \<and> y \<in> Pos ` set locations"
    then obtain msg locations where "(msg, locations) \<in> set (reported_groups (collected L nodes) order)"
        and "x \<in> Pos ` set locations" and "y \<in> Pos ` set locations"
      by blast
    then have "key_of L x = key_of L y"
      by (simp add: reported_group_key)
    with k d show False by metis
  qed
qed

text \<open>The claim at the example content, with a hexadecimal, a one-letter, a backslash-valued,
  a Unicode and an octal escape sequence, in two calls of \<^verbatim>\<open>errors.New\<close>.\<close>

theorem escapes_not_decoded_witness:
  "list_all valid_piece sample_pieces \<and> list_ex is_escape sample_pieces
   \<and> source_text sample_pieces
       = ''ok '' @ [backslash] @ ''x41'' @ [backslash] @ ''n%d'' @ [backslash] @ ''x5c''
         @ [backslash] @ ''u00e9'' @ [backslash] @ ''101''
   \<and> runtime_value sample_pieces
       = ''ok A'' @ [newline] @ ''%d'' @ [backslash, CHR 0xC3, CHR 0xA9] @ ''A''
   \<and> extractStringLiteral (quoted (source_text sample_pieces))
       \<noteq> extractStringLiteral (raw_quoted (runtime_value sample_pieces))
   \<and> \<not> (\<exists>(msg, locations) \<in> set (reported_groups
            (collected sample_lower
              [\<lparr>Fun = SelectorExpr (Ident ''errors'') ''New'',
                Args = [quoted (source_text sample_pieces)], node_Pos = 1\<rparr>,
               \<lparr>Fun = SelectorExpr (Ident ''errors'') ''New'',
                Args = [raw_quoted (runtime_value sample_pieces)], node_Pos = 2\<rparr>])
            [extractStringLiteral (quoted (source_text sample_pieces)),
             extractStringLiteral (raw_quoted (runtime_value sample_pieces))]).
          \<lparr>Fun = SelectorExpr (Ident ''errors'') ''New'',
            Args = [quoted (source_text sample_pieces)], node_Pos = 1\<rparr>
            \<in> Pos ` set locations
          \<and> \<lparr>Fun = SelectorExpr (Ident ''errors'') ''New'',
              Args = [raw_quoted (runtime_value sample_pieces)], node_Pos = 2\<rparr>
            \<in> Pos ` set locations)"
proof -
  have v: "list_all valid_piece sample_pieces"
    by (rule sample_pieces_valid)
  have e: "list_ex is_escape sample_pieces"
    by (simp add: sample_pieces_def)
  note claim = escapes_not_decoded [OF v e, of sample_lower]
  from claim v e sample_pieces_texts show ?thesis
    by (simp only: key_of_errors_New_lit simp_thms)
qed

subsection \<open>Recognition and extraction\<close>

text \<open>Claim C7 (the code departs from it). The recognizer names a logging call by its
  package identifier, and the extractor takes the first argument only for the names
  \<^verbatim>\<open>log\<close> and \<^verbatim>\<open>logger\<close>; any other logging identifier falls into the default
  branch, which searches all arguments. So \<^verbatim>\<open>mylog.Printf(err, "boom")\<close> has the message
  \<^verbatim>\<open>boom\<close> from its second argument, while \<^verbatim>\<open>log.Printf(err, "boom")\<close> is ignored.
  Lemma \<open>logging_first_argument\<close> is the claim for the identifiers \<^verbatim>\<open>log\<close> and
  \<^verbatim>\<open>logger\<close>.\<close>

theorem logging_call_uses_later_literal:
  "log_package L ''mylog'' \<and> log_func ''Printf'' \<and> \<not> is_string_lit (Ident ''err'')
   \<and> extractErrorMessage L
        \<lparr>Fun = SelectorExpr (Ident ''mylog'') ''Printf'',
         Args = [Ident ''err'', quoted ''boom''], node_Pos = 1\<rparr>
       = Some (''mylog'', ''boom'')
   \<and> extractErrorMessage L
        \<lparr>Fun = SelectorExpr (Ident ''log'') ''Printf'',
         Args = [Ident ''err'', quoted ''boom''], node_Pos = 1\<rparr>
       = Some ([], [])"
proof -
  have "getErrorConstructName L
          \<lparr>Fun = SelectorExpr (Ident ''mylog'') ''Printf'',
           Args = [Ident ''err'', quoted ''boom''], node_Pos = 1\<rparr> = ''mylog''"
    by (simp add: getErrorConstructName_def log_package_mylog log_func_Printf)
  then have a: "extractErrorMessage L
        \<lparr>Fun = SelectorExpr (Ident ''mylog'') ''Printf'',
         Args = [Ident ''err'', quoted ''boom''], node_Pos = 1\<rparr>
       = Some (''mylog'', ''boom'')"
    by (simp add: extractErrorMessage_def default_msgArg_def index_def message_of_def key_boom)
       (simp add: quoted_def)
  have "getErrorConstructName L
          \<lparr>Fun = SelectorExpr (Ident ''log'') ''Printf'',
           Args = [Ident ''err'', quoted ''boom''], node_Pos = 1\<rparr> = ''log''"
    by (simp add: getErrorConstructName_def log_package_def log_func_Printf)
  then have b: "extractErrorMessage L
        \<lparr>Fun = SelectorExpr (Ident ''log'') ''Printf'',
         Args = [Ident ''err'', quoted ''boom''], node_Pos = 1\<rparr>
       = Some ([], [])"
    by (simp add: extractErrorMessage_def index_def message_of_def)
  from a b log_package_mylog log_func_Printf show ?thesis by simp
qed

text \<open>Claim C8, as stated, fails. The test of the method name stands inside the test
  that the receiver is a bare identifier: a call whose receiver is another call or a
  selector is not recognized. And a method named \<^verbatim>\<open>LogError\<close> (or \<^verbatim>\<open>LogErrorf\<close>) is a
  case of its own in the extractor, which takes the first argument only.\<close>

theorem naming_fallback_counterexample:
  "error_constructor sample_lower ''NewError''
   \<and> extractErrorMessage sample_lower
        \<lparr>Fun = SelectorExpr (CallExpr (Ident ''factory'') []) ''NewError'',
         Args = [quoted ''boom''], node_Pos = 1\<rparr> = Some ([], [])
   \<and> extractErrorMessage sample_lower
        \<lparr>Fun = SelectorExpr (SelectorExpr (Ident ''s'') ''repo'') ''NewError'',
         Args = [quoted ''boom''], node_Pos = 2\<rparr> = Some ([], [])
   \<and> error_constructor sample_lower ''LogError'' \<and> \<not> log_package sample_lower ''db''
   \<and> extractErrorMessage sample_lower
        \<lparr>Fun = SelectorExpr (Ident ''db'') ''LogError'',
         Args = [Ident ''err'', quoted ''boom''], node_Pos = 3\<rparr> = Some ([], [])"
proof -
  have a: "extractErrorMessage sample_lower
        \<lparr>Fun = SelectorExpr (CallExpr (Ident ''factory'') []) ''NewError'',
         Args = [quoted ''boom''], node_Pos = 1\<rparr> = Some ([], [])"
    by (simp add: extractErrorMessage_def getErrorConstructName_def chained_log_method_def)
  have b: "extractErrorMessage sample_lower
        \<lparr>Fun = SelectorExpr (SelectorExpr (Ident ''s'') ''repo'') ''NewError'',
         Args = [quoted ''boom''], node_Pos = 2\<rparr> = Some ([], [])"
    by (simp add: extractErrorMessage_def getErrorConstructName_def)
  have "getErrorConstructName sample_lower
        \<lparr>Fun = SelectorExpr (Ident ''db'') ''LogError'',
         Args = [Ident ''err'', quoted ''boom''], node_Pos = 3\<rparr> = ''LogError''"
    by (simp add: getErrorConstructName_def error_constructor_examples)
  then have c: "extractErrorMessage sample_lower
        \<lparr>Fun = SelectorExpr (Ident ''db'') ''LogError'',
         Args = [Ident ''err'', quoted ''boom''], node_Pos = 3\<rparr> = Some ([], [])"
    by (simp add: extractErrorMessage_def index_def message_of_def)
  from a b c error_constructor_examples show ?thesis by simp
qed

text \<open>Claim C8, amended. A call \<^verbatim>\<open>pkg.sel(...)\<close> on a bare identifier that is neither
  \<^verbatim>\<open>errors.New\<close> nor \<^verbatim>\<open>fmt.Errorf\<close> nor a logging call, whose method name fits the
  naming convention (and is an identifier: it has no dot), is recognized under its
  method name. Its message comes from the first argument if that is a string literal, else
  from the first string literal among the arguments, else the call is ignored; for the
  method names \<^verbatim>\<open>LogError\<close> and \<^verbatim>\<open>LogErrorf\<close> it comes from the first argument
  only. In each case an empty key makes the call ignored (\<open>message_of\<close>). The name is
  tested as the code tests it, with \<^verbatim>\<open>strings.ToLower\<close> for every lowering \<open>L\<close> of the
  names outside ASCII.\<close>

theorem naming_convention_fallback:
  assumes "Fun call = SelectorExpr (Ident pkg) sel"
      and "\<not> (pkg = ''errors'' \<and> sel = ''New'')"
      and "\<not> (pkg = ''fmt'' \<and> sel = ''Errorf'')"
      and "\<not> (log_package L pkg \<and> log_func sel)"
      and "error_constructor L sel"
      and "CHR ''.'' \<notin> set sel"
  shows "getErrorConstructName L call = sel
       \<and> extractErrorMessage L call
           = Some (case Args call of
                     [] \<Rightarrow> ([], [])
                   | first # others \<Rightarrow>
                       if sel = ''LogError'' \<or> sel = ''LogErrorf'' then message_of sel first
                       else if is_string_lit first then message_of sel first
                       else (case find is_string_lit (first # others) of
                               None \<Rightarrow> ([], [])
                             | Some lit \<Rightarrow> message_of sel lit))"
proof -
  have c: "getErrorConstructName L call = sel"
    using assms(1-5) by (auto simp add: getErrorConstructName_def)
  have ne: "sel \<noteq> []"
    using assms(5) by (rule error_constructor_dot)
  have nodot: "sel \<noteq> ''errors.New''" "sel \<noteq> ''fmt.Errorf''"
    using assms(6) by auto
  have nolog: "sel \<noteq> ''log''" "sel \<noteq> ''logger''" "sel \<noteq> ''Log''" "sel \<noteq> ''Logf''"
    using assms(5) not_error_constructor_log by auto
  show ?thesis
  proof (cases "Args call")
    case Nil
    with c ne show ?thesis by (simp add: extractErrorMessage_def)
  next
    case (Cons first others)
    show ?thesis
    proof (cases "sel = ''LogError'' \<or> sel = ''LogErrorf''")
      case True
      with c Cons show ?thesis
        by (auto simp add: extractErrorMessage_def index_def)
    next
      case False
      with c Cons ne nodot nolog show ?thesis
        by (simp add: extractErrorMessage_def default_msgArg_def index_def split: option.splits)
    qed
  qed
qed

text \<open>The amended claim at \<^verbatim>\<open>db.NewError(err, "boom")\<close>, whose message is the literal of the second
  argument, and at a method name that holds \<^verbatim>\<open>fail\<close> only once \<^verbatim>\<open>strings.ToLower\<close> has
  lowered its letter U+0130.\<close>

theorem naming_convention_fallback_witness:
  "\<not> (log_package sample_lower ''db'' \<and> log_func ''NewError'')
   \<and> error_constructor sample_lower ''NewError''
   \<and> CHR ''.'' \<notin> set ''NewError''
   \<and> getErrorConstructName sample_lower
        \<lparr>Fun = SelectorExpr (Ident ''db'') ''NewError'',
         Args = [Ident ''err'', quoted ''boom''], node_Pos = 1\<rparr> = ''NewError''
   \<and> extractErrorMessage sample_lower
        \<lparr>Fun = SelectorExpr (Ident ''db'') ''NewError'',
         Args = [Ident ''err'', quoted ''boom''], node_Pos = 1\<rparr> = Some (''NewError'', ''boom'')
   \<and> error_constructor sample_lower (''Fa'' @ [CHR 0xC4, CHR 0xB0] @ ''l'')
   \<and> extractErrorMessage sample_lower
        \<lparr>Fun = SelectorExpr (Ident ''svc'') (''Fa'' @ [CHR 0xC4, CHR 0xB0] @ ''l''),
         Args = [quoted ''boom''], node_Pos = 2\<rparr>
       = Some (''Fa'' @ [CHR 0xC4, CHR 0xB0] @ ''l'', ''boom'')"
proof -
  let ?call = "\<lparr>Fun = SelectorExpr (Ident ''db'') ''NewError'',
         Args = [Ident ''err'', quoted ''boom''], node_Pos = 1\<rparr>"
  have f: "Fun ?call = SelectorExpr (Ident ''db'') ''NewError''"
    by simp
  have h1: "\<not> (''db'' = ''errors'' \<and> ''NewError'' = ''New'')"
   and h2: "\<not> (''db'' = ''fmt'' \<and> ''NewError'' = ''Errorf'')"
    by simp_all
  have h3: "\<not> (log_package sample_lower ''db'' \<and> log_func ''NewError'')"
    by (simp add: error_constructor_examples)
  have h4: "error_constructor sample_lower ''NewError''"
    by (rule error_constructor_examples)
  have h5: "CHR ''.'' \<notin> set ''NewError''"
    by simp
  have lit: "find is_string_lit [Ident ''err'', quoted ''boom''] = Some (quoted ''boom'')"
    by (simp add: quoted_def)
  have first: "getErrorConstructName sample_lower ?call = ''NewError''
      \<and> extractErrorMessage sample_lower ?call = Some (''NewError'', ''boom'')"
    using naming_convention_fallback [OF f h1 h2 h3 h4 h5] lit
    by (simp add: message_of_def key_boom)
  let ?name = "''Fa'' @ [CHR 0xC4, CHR 0xB0] @ ''l''"
  let ?svc = "\<lparr>Fun = SelectorExpr (Ident ''svc'') ?name, Args = [quoted ''boom''], node_Pos = 2\<rparr>"
  have g: "Fun ?svc = SelectorExpr (Ident ''svc'') ?name"
    by simp
  have g1: "\<not> (''svc'' = ''errors'' \<and> ?name = ''New'')"
   and g2: "\<not> (''svc'' = ''fmt'' \<and> ?name = ''Errorf'')"
    by simp_all
  have g3: "\<not> (log_package sample_lower ''svc'' \<and> log_func ?name)"
    by (simp add: dotted_I_name)
  have g4: "error_constructor sample_lower ?name"
    by (rule dotted_I_name)
  have g5: "CHR ''.'' \<notin> set ?name"
    by simp
  have second: "extractErrorMessage sample_lower ?svc = Some (?name, ''boom'')"
    using naming_convention_fallback [OF g g1 g2 g3 g4 g5]
    by (simp add: message_of_def key_boom) (simp add: quoted_def)
  from first second h3 h4 h5 g4 show ?thesis
    by (intro conjI) simp_all
qed

text \<open>Claim C9 (the code departs from it in one case). Nothing panics
  (\<open>extractErrorMessage_total\<close>, \<open>Preorder_total\<close>, \<open>run_total\<close>); an unmatched call,
  a call of rules 1 and 2 or of the packages \<^verbatim>\<open>log\<close> and \<^verbatim>\<open>logger\<close> whose first argument
  is not a string literal, and a call with an empty key add nothing to the map
  (\<open>unmatched_not_recorded\<close>, \<open>first_argument_not_literal\<close>, \<open>empty_key_not_recorded\<close>,
  \<open>visit_not_recorded\<close>). But a logging call of rule 3 under another package identifier,
  with a first argument that is not a string literal, is recorded when a later argument
  is one.\<close>

theorem non_literal_first_argument_recorded:
  "getErrorConstructName L
     \<lparr>Fun = SelectorExpr (Ident ''mylog'') ''Printf'',
      Args = [Ident ''err'', quoted ''boom''], node_Pos = 1\<rparr> = ''mylog''
   \<and> log_package L ''mylog'' \<and> log_func ''Printf''
   \<and> \<not> is_string_lit (Ident ''err'')
   \<and> recorded L
        \<lparr>Fun = SelectorExpr (Ident ''mylog'') ''Printf'',
         Args = [Ident ''err'', quoted ''boom''], node_Pos = 1\<rparr>
   \<and> Preorder L Map.empty
        [\<lparr>Fun = SelectorExpr (Ident ''mylog'') ''Printf'',
          Args = [Ident ''err'', quoted ''boom''], node_Pos = 1\<rparr>]
       = Some [''boom'' \<mapsto>
                 [\<lparr>Pos = \<lparr>Fun = SelectorExpr (Ident ''mylog'') ''Printf'',
                           Args = [Ident ''err'', quoted ''boom''], node_Pos = 1\<rparr>,
                   Construct = ''mylog''\<rparr>]]"
  using construct_mylog_Printf log_package_mylog log_func_Printf
  by (simp add: recorded_def visit_def extract_mylog_Printf lookup_def)

end
